theory Spec2Isabelle
  imports Main "HOL-Library.Option_ord" "HOL-Library.Multiset" "HOL-Library.Char_ord"
    "HOL-Library.List_Lexorder"
begin

section \<open>Errors thrown by the MongoDB driver and their classification\<close>

text \<open>
  A value caught by a \<^verbatim>\<open>catch (error)\<close> clause of \<^verbatim>\<open>src/clone/runner.ts\<close>. The copy engine
  looks at three things only: whether the value is an instance of \<^verbatim>\<open>MongoNetworkError\<close>,
  whether it is an instance of \<^verbatim>\<open>Error\<close>, and its \<^verbatim>\<open>message\<close>.
\<close>

datatype thrown = Thrown (is_MongoNetworkError: bool) (is_Error: bool) (message: string)

type_synonym 'a result = "thrown + 'a"

text \<open>
  The regular expression \<^verbatim>\<open>/(EPIPE|ETIMEDOUT|ECONNRESET|Connection closed|Socket Closed)/i\<close>:
  an unanchored search for one of five literal alternatives, ignoring case. The \<^verbatim>\<open>i\<close> flag
  compares characters after mapping them to upper case; the alternatives are ASCII, so
  only the ASCII letters matter.
\<close>

definition canonicalize :: "char \<Rightarrow> char" where
  "canonicalize c =
     (case map_of (zip ''abcdefghijklmnopqrstuvwxyz'' ''ABCDEFGHIJKLMNOPQRSTUVWXYZ'') c of
        Some u \<Rightarrow> u
      | None \<Rightarrow> c)"

fun matches_at :: "string \<Rightarrow> string \<Rightarrow> bool" where
  "matches_at [] s = True"
| "matches_at (p # ps) [] = False"
| "matches_at (p # ps) (c # cs) = (canonicalize p = canonicalize c \<and> matches_at ps cs)"

fun regex_search :: "string \<Rightarrow> string \<Rightarrow> bool" where
  "regex_search p [] = matches_at p []"
| "regex_search p (c # cs) = (matches_at p (c # cs) \<or> regex_search p cs)"

definition NETWORK_PATTERNS :: "string list" where
  "NETWORK_PATTERNS =
     [''EPIPE'', ''ETIMEDOUT'', ''ECONNRESET'', ''Connection closed'', ''Socket Closed'']"

definition network_regex_test :: "string \<Rightarrow> bool" where
  "network_regex_test msg = list_ex (\<lambda>p. regex_search p msg) NETWORK_PATTERNS"

text \<open>
  \<^verbatim>\<open>const isNetworkError = error instanceof MongoNetworkError ||
    (error instanceof Error && /(...)/i.test(error.message));\<close>
  (the same expression in \<^verbatim>\<open>insertBatch\<close> and in \<^verbatim>\<open>insertIndividually\<close>).
\<close>

definition isNetworkError :: "thrown \<Rightarrow> bool" where
  "isNetworkError error =
     (is_MongoNetworkError error \<or> (is_Error error \<and> network_regex_test (message error)))"

section \<open>Documents, the destination driver and the observable world\<close>

text \<open>
  A document, as far as the copy engine reads it: its \<^verbatim>\<open>_id\<close> field (absent is \<open>None\<close>;
  the engine writes \<^verbatim>\<open>page[page.length - 1]._id ?? lastId\<close>) and the rest of its content.
\<close>

datatype 'k document = Document (doc_id: "'k option") (doc_body: string)

text \<open>A collection handle: the database name and the collection name.\<close>

type_synonym coll_ref = "string \<times> string"

text \<open>
  Collection options as \<^verbatim>\<open>listCollections\<close> reports them: named entries whose value may be
  nullish (\<open>None\<close>). JavaScript values, as far as the code tells them apart. Index definitions
  as \<^verbatim>\<open>indexes()\<close> reports them: the index name, its key specification and its remaining
  fields.
\<close>

type_synonym coll_options = "(string \<times> string option) list"

datatype jsval =
    JUndefined
  | JNull
  | JBool bool
  | JNum int
  | JStr string
  | JObjectId string
  | JDate nat
  | JArr "jsval list"
  | JObj "(string \<times> jsval) list"

record index_info =
  index_name :: string
  index_key :: string
  index_fields :: "(string \<times> jsval) list"

type_synonym index_options = "(string \<times> jsval) list"

text \<open>
  What a run leaves behind: every call on the destination with its outcome, every page
  read from the source, every timer and every console line that the claims speak of.
\<close>

datatype console =
    StartingClone string
  | OverwriteRequested string
  | NoCollectionsFound string
  | SkippingCollection string
  | CloningCollection string
  | FinishedCloning string
  | WarnCreateCollectionFailed thrown
  | WarnNetworkIssue thrown nat nat
  | WarnPingErrored thrown
  | WarnCreateIndexFailed string coll_ref thrown

datatype 'k event =
    EvListDatabases "string list result"
  | EvDropDatabase string "unit result"
  | EvListCollections string "string list result"
  | EvDropCollection coll_ref "unit result"
  | EvCreateCollection coll_ref "coll_options option" "unit result"
  | EvInsertMany coll_ref "'k document list" "unit result"
  | EvInsertOne coll_ref "'k document" "unit result"
  | EvPing string "unit result"
  | EvCreateIndex coll_ref string index_options "unit result"
  | EvFind coll_ref "'k option" "'k document list"
  | EvSetTimeout nat
  | EvConsole console

text \<open>
  The destination \<^verbatim>\<open>MongoClient\<close> is not code of this repository: it is a parameter. Each
  operation the engine calls takes the destination's state and returns either the thrown
  value (\<open>Inl\<close>) or the result (\<open>Inr\<close>), and the new state. No behaviour is assumed.
\<close>

record ('s, 'k) driver =
  listDatabases :: "'s \<Rightarrow> string list result \<times> 's"
  dropDatabase :: "string \<Rightarrow> 's \<Rightarrow> unit result \<times> 's"
  listCollections :: "string \<Rightarrow> 's \<Rightarrow> string list result \<times> 's"
  dropCollection :: "coll_ref \<Rightarrow> 's \<Rightarrow> unit result \<times> 's"
  createCollection :: "coll_ref \<Rightarrow> coll_options option \<Rightarrow> 's \<Rightarrow> unit result \<times> 's"
  insertMany :: "coll_ref \<Rightarrow> 'k document list \<Rightarrow> 's \<Rightarrow> unit result \<times> 's"
  insertOne :: "coll_ref \<Rightarrow> 'k document \<Rightarrow> 's \<Rightarrow> unit result \<times> 's"
  ping :: "string \<Rightarrow> 's \<Rightarrow> unit result \<times> 's"
  createIndex :: "coll_ref \<Rightarrow> string \<Rightarrow> index_options \<Rightarrow> 's \<Rightarrow> unit result \<times> 's"

record ('s, 'k) world =
  dest :: 's
  trace :: "'k event list"

definition emit :: "'k event \<Rightarrow> ('s, 'k) world \<Rightarrow> ('s, 'k) world" where
  "emit e w = w\<lparr>trace := trace w @ [e]\<rparr>"

text \<open>An awaited driver call: run it on the destination's state and record it.\<close>

definition call ::
  "('s \<Rightarrow> 'a result \<times> 's) \<Rightarrow> ('a result \<Rightarrow> 'k event) \<Rightarrow> ('s, 'k) world
     \<Rightarrow> 'a result \<times> ('s, 'k) world" where
  "call operation ev w =
     (case operation (dest w) of (r, s') \<Rightarrow> (r, emit (ev r) (w\<lparr>dest := s'\<rparr>)))"

section \<open>The batch writer: \<^verbatim>\<open>insertBatch\<close> and \<^verbatim>\<open>insertIndividually\<close>\<close>

definition PAGE_SIZE :: nat where
  "PAGE_SIZE = 10"

definition MAX_RETRIES :: nat where
  "MAX_RETRIES = 7"

text \<open>\<^verbatim>\<open>const delay = Math.min(20_000, 500 * attempt * attempt);\<close>\<close>

definition delay :: "nat \<Rightarrow> nat" where
  "delay attempt = min 20000 (500 * attempt * attempt)"

text \<open>
  The \<^verbatim>\<open>while (attempt <= MAX_RETRIES)\<close> loop that \<^verbatim>\<open>insertIndividually\<close> runs for one
  document: \<^verbatim>\<open>break\<close> on success, \<^verbatim>\<open>throw error\<close> when the error is not a network error or
  the attempts are used up, otherwise wait and try again.
\<close>

function insertIndividually_doc ::
  "('s, 'k) driver \<Rightarrow> coll_ref \<Rightarrow> 'k document \<Rightarrow> nat \<Rightarrow> ('s, 'k) world
     \<Rightarrow> unit result \<times> ('s, 'k) world" where
  "insertIndividually_doc drv dc doc attempt w =
     (if attempt \<le> MAX_RETRIES then
        (case call (insertOne drv dc doc) (EvInsertOne dc doc) w of
           (Inr u, w1) \<Rightarrow> (Inr (), w1)
         | (Inl error, w1) \<Rightarrow>
             if \<not> isNetworkError error \<or> attempt \<ge> MAX_RETRIES then (Inl error, w1)
             else insertIndividually_doc drv dc doc (attempt + 1)
                    (emit (EvSetTimeout (delay attempt)) w1))
      else (Inr (), w))"
  by pat_completeness auto
termination
  by (relation "measure (\<lambda>(drv, dc, doc, attempt, w). MAX_RETRIES - attempt)") auto

fun insertIndividually ::
  "('s, 'k) driver \<Rightarrow> coll_ref \<Rightarrow> 'k document list \<Rightarrow> ('s, 'k) world
     \<Rightarrow> unit result \<times> ('s, 'k) world" where
  "insertIndividually drv dc [] w = (Inr (), w)"
| "insertIndividually drv dc (doc # documents) w =
     (case insertIndividually_doc drv dc doc 1 w of
        (Inl error, w1) \<Rightarrow> (Inl error, w1)
      | (Inr u, w1) \<Rightarrow> insertIndividually drv dc documents w1)"

text \<open>
  The steps of \<^verbatim>\<open>insertBatch\<close> between a failed bulk insert that will be retried and the
  recursive call: the warning, the timer, the ping (whose failure is only logged).
\<close>

definition backoff ::
  "('s, 'k) driver \<Rightarrow> coll_ref \<Rightarrow> thrown \<Rightarrow> nat \<Rightarrow> ('s, 'k) world \<Rightarrow> ('s, 'k) world" where
  "backoff drv dc error attempt w =
     (let w1 = emit (EvConsole (WarnNetworkIssue error (delay attempt) (attempt + 1))) w;
          w2 = emit (EvSetTimeout (delay attempt)) w1
      in case call (ping drv (fst dc)) (EvPing (fst dc)) w2 of
           (Inr u, w3) \<Rightarrow> w3
         | (Inl pingError, w3) \<Rightarrow> emit (EvConsole (WarnPingErrored pingError)) w3)"

function insertBatch ::
  "('s, 'k) driver \<Rightarrow> coll_ref \<Rightarrow> 'k document list \<Rightarrow> nat \<Rightarrow> ('s, 'k) world
     \<Rightarrow> unit result \<times> ('s, 'k) world" where
  "insertBatch drv dc documents attempt w =
     (case call (insertMany drv dc documents) (EvInsertMany dc documents) w of
        (Inr u, w1) \<Rightarrow> (Inr (), w1)
      | (Inl error, w1) \<Rightarrow>
          if \<not> isNetworkError error \<or> attempt \<ge> MAX_RETRIES
          then insertIndividually drv dc documents w1
          else insertBatch drv dc documents (attempt + 1) (backoff drv dc error attempt w1))"
  by pat_completeness auto
termination
  by (relation "measure (\<lambda>(drv, dc, documents, attempt, w). MAX_RETRIES - attempt)") auto

section \<open>The paginated reader: \<^verbatim>\<open>cloneCollection\<close>\<close>

text \<open>
  The source deployment is read only. It is modelled as what its reads return: for a
  database name, the collections that \<^verbatim>\<open>listCollections()\<close> lists, each with its name, its
  options, its documents and its index definitions. Source reads do not fail in this model.
\<close>

record 'k source_collection =
  coll_name :: string
  coll_options :: "coll_options option"
  coll_docs :: "'k document list"
  coll_indexes :: "index_info list"

text \<open>
  The values of \<^verbatim>\<open>_id\<close> in the source: numbers (integers here), strings, ObjectIds (their
  twelve bytes read as one number), booleans and dates (milliseconds). Other BSON types are
  left out. MongoDB compares values of different types by type, numbers before strings
  before ObjectIds before booleans before dates, and values of one type by value; strings
  are compared byte by byte. This is the order of \<^verbatim>\<open>sort({ _id: 1 })\<close>.
\<close>

datatype bson = BNumber int | BString string | BObjectId nat | BBoolean bool | BDate int

fun type_order :: "bson \<Rightarrow> nat" where
  "type_order (BNumber n) = 1"
| "type_order (BString s) = 2"
| "type_order (BObjectId h) = 3"
| "type_order (BBoolean b) = 4"
| "type_order (BDate t) = 5"

fun bson_le :: "bson \<Rightarrow> bson \<Rightarrow> bool" where
  "bson_le (BNumber a) (BNumber b) = (a \<le> b)"
| "bson_le (BString a) (BString b) = (a \<le> b)"
| "bson_le (BObjectId a) (BObjectId b) = (a \<le> b)"
| "bson_le (BBoolean a) (BBoolean b) = (a \<le> b)"
| "bson_le (BDate a) (BDate b) = (a \<le> b)"
| "bson_le a b = (type_order a < type_order b)"

instantiation bson :: linorder
begin

definition less_eq_bson :: "bson \<Rightarrow> bson \<Rightarrow> bool" where
  "less_eq_bson a b = bson_le a b"

definition less_bson :: "bson \<Rightarrow> bson \<Rightarrow> bool" where
  "less_bson a b = (bson_le a b \<and> \<not> bson_le b a)"

instance
proof
  fix x y z :: bson
  show "(x < y) = (x \<le> y \<and> \<not> y \<le> x)"
    by (simp add: less_bson_def less_eq_bson_def)
  show "x \<le> x"
    by (cases x) (simp_all add: less_eq_bson_def)
  show "x \<le> y \<Longrightarrow> y \<le> z \<Longrightarrow> x \<le> z"
    by (cases x; cases y; cases z) (simp_all add: less_eq_bson_def)
  show "x \<le> y \<Longrightarrow> y \<le> x \<Longrightarrow> x = y"
    by (cases x; cases y) (auto simp: less_eq_bson_def)
  show "x \<le> y \<or> y \<le> x"
    by (cases x; cases y) (auto simp: less_eq_bson_def)
qed

end

text \<open>
  The filter of one page: \<^verbatim>\<open>{}\<close> when \<^verbatim>\<open>lastId === undefined\<close>, else
  \<^verbatim>\<open>{ _id: { $gt: lastId } }\<close>. A comparison operator of a query matches only values of the
  type of its operand (type bracketing): \<^verbatim>\<open>$gt\<close> matches an \<^verbatim>\<open>_id\<close> of the type of \<^verbatim>\<open>lastId\<close>
  that is greater, and no \<^verbatim>\<open>_id\<close> of another type, whatever its place in the sort order. A
  document without \<^verbatim>\<open>_id\<close> does not match.
\<close>

definition find_filter :: "bson option \<Rightarrow> bson document \<Rightarrow> bool" where
  "find_filter lastId d =
     (case lastId of
        None \<Rightarrow> True
      | Some l \<Rightarrow>
          (case doc_id d of
             None \<Rightarrow> False
           | Some k \<Rightarrow> type_order k = type_order l \<and> l < k))"

text \<open>
  \<^verbatim>\<open>sourceCollection.find(filter).sort({ _id: 1 }).limit(PAGE_SIZE).toArray()\<close>. An absent
  \<^verbatim>\<open>_id\<close> sorts before every value, as \<open>None\<close> does in the order on \<open>bson option\<close>.
\<close>

definition find_page :: "bson document list \<Rightarrow> bson option \<Rightarrow> bson document list" where
  "find_page docs lastId = take PAGE_SIZE (sort_key doc_id (filter (find_filter lastId) docs))"

text \<open>
  The \<^verbatim>\<open>while (true)\<close> loop of \<^verbatim>\<open>cloneCollection\<close>. It has no bound of its own, so a run
  that never leaves it has the value \<open>None\<close>. The progress line and the document count it
  needs (\<^verbatim>\<open>safeEstimatedCount\<close>, \<^verbatim>\<open>printProgress\<close>) are console formatting and are left out;
  the ping after each page has its error swallowed by \<^verbatim>\<open>.catch(() => {})\<close>.
\<close>

partial_function (option) cloneCollection_loop ::
  "('s, bson) driver \<Rightarrow> bson document list \<Rightarrow> coll_ref \<Rightarrow> bson option \<Rightarrow> ('s, bson) world
     \<Rightarrow> (unit result \<times> ('s, bson) world) option" where
  "cloneCollection_loop drv docs dc lastId w =
     (let page = find_page docs lastId;
          w0 = emit (EvFind dc lastId page) w
      in if page = [] then Some (Inr (), w0)
         else (case insertBatch drv dc page 1 w0 of
                 (Inl error, w1) \<Rightarrow> Some (Inl error, w1)
               | (Inr u, w1) \<Rightarrow>
                   cloneCollection_loop drv docs dc
                     (case doc_id (last page) of Some k \<Rightarrow> Some k | None \<Rightarrow> lastId)
                     (snd (call (ping drv (fst dc)) (EvPing (fst dc)) w1))))"

definition cloneCollection ::
  "('s, bson) driver \<Rightarrow> bson document list \<Rightarrow> coll_ref \<Rightarrow> ('s, bson) world
     \<Rightarrow> (unit result \<times> ('s, bson) world) option" where
  "cloneCollection drv docs dc w = cloneCollection_loop drv docs dc None w"

section \<open>The index synchronizer: \<^verbatim>\<open>syncIndexes\<close>\<close>

fun truthy :: "jsval \<Rightarrow> bool" where
  "truthy JUndefined = False"
| "truthy JNull = False"
| "truthy (JBool b) = b"
| "truthy (JNum n) = (n \<noteq> 0)"
| "truthy (JStr s) = (s \<noteq> [])"
| "truthy (JObjectId h) = True"
| "truthy (JDate d) = True"
| "truthy (JArr vs) = True"
| "truthy (JObj fs) = True"

text \<open>
  The tests \<^verbatim>\<open>buildIndexOptions\<close> applies before it copies a field:
  \<^verbatim>\<open>typeof v === "boolean"\<close>, \<^verbatim>\<open>typeof v === "number"\<close>, \<^verbatim>\<open>if (v)\<close> and \<^verbatim>\<open>v != null\<close>.
\<close>

datatype field_test = IsBoolean | IsNumber | IsTruthy | NotNullish

fun passes :: "field_test \<Rightarrow> jsval \<Rightarrow> bool" where
  "passes IsBoolean v = (case v of JBool b \<Rightarrow> True | _ \<Rightarrow> False)"
| "passes IsNumber v = (case v of JNum n \<Rightarrow> True | _ \<Rightarrow> False)"
| "passes IsTruthy v = truthy v"
| "passes NotNullish v = (v \<noteq> JUndefined \<and> v \<noteq> JNull)"

definition INDEX_OPTION_FIELDS :: "(string \<times> field_test) list" where
  "INDEX_OPTION_FIELDS =
     [(''unique'', IsBoolean), (''sparse'', IsBoolean), (''background'', IsBoolean),
      (''expireAfterSeconds'', IsNumber), (''partialFilterExpression'', IsTruthy),
      (''collation'', IsTruthy), (''wildcardProjection'', IsTruthy), (''weights'', IsTruthy),
      (''default_language'', IsTruthy), (''language_override'', IsTruthy),
      (''textIndexVersion'', NotNullish), (''2dsphereIndexVersion'', NotNullish),
      (''bits'', NotNullish), (''min'', NotNullish), (''max'', NotNullish),
      (''bucketSize'', NotNullish), (''storageEngine'', IsTruthy), (''hidden'', IsBoolean)]"

definition field_of :: "index_info \<Rightarrow> string \<Rightarrow> jsval" where
  "field_of index f = (case map_of (index_fields index) f of Some v \<Rightarrow> v | None \<Rightarrow> JUndefined)"

definition buildIndexOptions :: "index_info \<Rightarrow> index_options" where
  "buildIndexOptions index =
     (''name'', JStr (index_name index)) #
     map (\<lambda>(f, t). (f, field_of index f))
       (filter (\<lambda>(f, t). passes t (field_of index f)) INDEX_OPTION_FIELDS)"

fun syncIndexes ::
  "('s, 'k) driver \<Rightarrow> index_info list \<Rightarrow> coll_ref \<Rightarrow> ('s, 'k) world \<Rightarrow> ('s, 'k) world" where
  "syncIndexes drv [] dc w = w"
| "syncIndexes drv (index # indexes) dc w =
     (if index_name index = ''_id_'' then syncIndexes drv indexes dc w
      else (case call (createIndex drv dc (index_key index) (buildIndexOptions index))
                   (EvCreateIndex dc (index_key index) (buildIndexOptions index)) w of
              (Inr u, w1) \<Rightarrow> syncIndexes drv indexes dc w1
            | (Inl error, w1) \<Rightarrow>
                syncIndexes drv indexes dc
                  (emit (EvConsole (WarnCreateIndexFailed (index_name index) dc error)) w1)))"

section \<open>The copy orchestrator: \<^verbatim>\<open>cloneDatabases\<close>\<close>

text \<open>\<^verbatim>\<open>sanitizeOptions\<close>: the entries whose value is not nullish.\<close>

definition sanitizeOptions :: "coll_options \<Rightarrow> coll_options" where
  "sanitizeOptions options = filter (\<lambda>(k, v). v \<noteq> None) options"

text \<open>
  The block of the inner loop that makes sure the destination collection exists: drop it
  when the name is in \<^verbatim>\<open>destinationCollectionNames\<close> (an error propagates), then create it
  (an error is caught and logged). It returns the updated set of names.
\<close>

definition prepareCollection ::
  "('s, 'k) driver \<Rightarrow> coll_ref \<Rightarrow> coll_options option \<Rightarrow> string set \<Rightarrow> ('s, 'k) world
     \<Rightarrow> string set result \<times> ('s, 'k) world" where
  "prepareCollection drv dc opts names w =
     (case (if snd dc \<in> names
            then (case call (dropCollection drv dc) (EvDropCollection dc) w of
                    (Inl error, w1) \<Rightarrow> (Inl error, w1)
                  | (Inr u, w1) \<Rightarrow> (Inr (names - {snd dc}), w1))
            else (Inr names, w)) of
        (Inl error, w1) \<Rightarrow> (Inl error, w1)
      | (Inr names1, w1) \<Rightarrow>
          if snd dc \<notin> names1
          then (let collectionOptions = map_option sanitizeOptions opts
                in case call (createCollection drv dc collectionOptions)
                          (EvCreateCollection dc collectionOptions) w1 of
                     (Inr u, w2) \<Rightarrow> (Inr (insert (snd dc) names1), w2)
                   | (Inl error, w2) \<Rightarrow>
                       (Inr (insert (snd dc) names1),
                        emit (EvConsole (WarnCreateCollectionFailed error)) w2))
          else (Inr names1, w1))"

text \<open>
  The inner loop over \<^verbatim>\<open>sourceCollections\<close>. The percentages of the progress lines are
  left out of the console lines.
\<close>

fun cloneDatabases_collections ::
  "('s, bson) driver \<Rightarrow> bool \<Rightarrow> bool \<Rightarrow> string \<Rightarrow> bson source_collection list \<Rightarrow> string set
     \<Rightarrow> ('s, bson) world \<Rightarrow> (unit result \<times> ('s, bson) world) option" where
  "cloneDatabases_collections drv shouldOverwrite skipIndexes dbName [] names w = Some (Inr (), w)"
| "cloneDatabases_collections drv shouldOverwrite skipIndexes dbName (collectionInfo # rest) names w =
     (let collectionName = coll_name collectionInfo in
      if collectionName = [] then
        cloneDatabases_collections drv shouldOverwrite skipIndexes dbName rest names w
      else if \<not> shouldOverwrite \<and> collectionName \<in> names then
        cloneDatabases_collections drv shouldOverwrite skipIndexes dbName rest names
          (emit (EvConsole (SkippingCollection collectionName)) w)
      else
        (case prepareCollection drv (dbName, collectionName) (coll_options collectionInfo) names
                (emit (EvConsole (CloningCollection collectionName)) w) of
           (Inl error, w1) \<Rightarrow> Some (Inl error, w1)
         | (Inr names1, w1) \<Rightarrow>
             (case cloneCollection drv (coll_docs collectionInfo) (dbName, collectionName) w1 of
                None \<Rightarrow> None
              | Some (Inl error, w2) \<Rightarrow> Some (Inl error, w2)
              | Some (Inr u, w2) \<Rightarrow>
                  cloneDatabases_collections drv shouldOverwrite skipIndexes dbName rest names1
                    (if skipIndexes then w2
                     else syncIndexes drv (coll_indexes collectionInfo)
                            (dbName, collectionName) w2))))"

text \<open>The outer loop over \<^verbatim>\<open>databases\<close>.\<close>

fun cloneDatabases_loop ::
  "('s, bson) driver \<Rightarrow> (string \<Rightarrow> bson source_collection list) \<Rightarrow> string list \<Rightarrow> bool
     \<Rightarrow> string list \<Rightarrow> ('s, bson) world \<Rightarrow> (unit result \<times> ('s, bson) world) option" where
  "cloneDatabases_loop drv source overwrite skipIndexes [] w = Some (Inr (), w)"
| "cloneDatabases_loop drv source overwrite skipIndexes (dbName # databases) w =
     (let w1 = emit (EvConsole (StartingClone dbName)) w;
          shouldOverwrite = (dbName \<in> set overwrite)
      in case (if shouldOverwrite
               then call (dropDatabase drv dbName) (EvDropDatabase dbName)
                      (emit (EvConsole (OverwriteRequested dbName)) w1)
               else (Inr (), w1)) of
           (Inl error, w2) \<Rightarrow> Some (Inl error, w2)
         | (Inr u, w2) \<Rightarrow>
             (let sourceCollections = source dbName in
              if sourceCollections = [] then
                cloneDatabases_loop drv source overwrite skipIndexes databases
                  (emit (EvConsole (NoCollectionsFound dbName)) w2)
              else
                (case call (listCollections drv dbName) (EvListCollections dbName) w2 of
                   (Inl error, w3) \<Rightarrow> Some (Inl error, w3)
                 | (Inr destinationCollections, w3) \<Rightarrow>
                     (case cloneDatabases_collections drv shouldOverwrite skipIndexes dbName
                             sourceCollections (set destinationCollections) w3 of
                        None \<Rightarrow> None
                      | Some (Inl error, w4) \<Rightarrow> Some (Inl error, w4)
                      | Some (Inr u, w4) \<Rightarrow>
                          cloneDatabases_loop drv source overwrite skipIndexes databases
                            (emit (EvConsole (FinishedCloning dbName)) w4)))))"

definition cloneDatabases ::
  "('s, bson) driver \<Rightarrow> (string \<Rightarrow> bson source_collection list) \<Rightarrow> string list
     \<Rightarrow> string list \<Rightarrow> bool \<Rightarrow> ('s, bson) world \<Rightarrow> (unit result \<times> ('s, bson) world) option" where
  "cloneDatabases drv source databases overwrite skipIndexes w =
     cloneDatabases_loop drv source overwrite skipIndexes databases w"
section \<open>Conflict resolution and the command-line run: \<^verbatim>\<open>promptConflictResolution\<close>, \<^verbatim>\<open>runCli\<close>\<close>

datatype action = Overwrite | Skip | Cancel

record resolution =
  res_overwrite :: "string list"
  res_skip :: "string list"
  res_cancelled :: bool

text \<open>
  The user is not code of the repository: \<open>ask dbName u\<close> is the action selected at the
  prompt for \<open>dbName\<close> by a user in state \<open>u\<close>, and the user's state afterwards. The loop
  of \<^verbatim>\<open>promptConflictResolution\<close> carries the two arrays \<^verbatim>\<open>overwrite\<close> and \<^verbatim>\<open>skip\<close>.
\<close>

fun promptConflictResolution_loop ::
  "(string \<Rightarrow> 'u \<Rightarrow> action \<times> 'u) \<Rightarrow> string list \<Rightarrow> string list \<Rightarrow> string list \<Rightarrow> 'u
     \<Rightarrow> resolution \<times> 'u" where
  "promptConflictResolution_loop ask [] ov sk u =
     (\<lparr>res_overwrite = ov, res_skip = sk, res_cancelled = False\<rparr>, u)"
| "promptConflictResolution_loop ask (dbName # rest) ov sk u =
     (case ask dbName u of
        (Cancel, u1) \<Rightarrow> (\<lparr>res_overwrite = ov, res_skip = sk, res_cancelled = True\<rparr>, u1)
      | (Overwrite, u1) \<Rightarrow> promptConflictResolution_loop ask rest (ov @ [dbName]) sk u1
      | (Skip, u1) \<Rightarrow> promptConflictResolution_loop ask rest ov (sk @ [dbName]) u1)"

definition promptConflictResolution ::
  "(string \<Rightarrow> 'u \<Rightarrow> action \<times> 'u) \<Rightarrow> string list \<Rightarrow> 'u \<Rightarrow> resolution \<times> 'u" where
  "promptConflictResolution ask conflictingDatabases u =
     promptConflictResolution_loop ask conflictingDatabases [] [] u"

text \<open>
  \<^verbatim>\<open>promptDatabaseSelection\<close>, given the choices the user toggled: all databases when
  \<^verbatim>\<open>[Select All]\<close> is among them.
\<close>

definition promptDatabaseSelection :: "string list \<Rightarrow> string list \<Rightarrow> string list" where
  "promptDatabaseSelection databaseNames selected =
     (if ''[Select All]'' \<in> set selected then databaseNames else selected)"

text \<open>\<^verbatim>\<open>extractDatabaseNames\<close>: the names that are not \<^verbatim>\<open>admin\<close>, \<^verbatim>\<open>config\<close> or \<^verbatim>\<open>local\<close>.\<close>

definition databaseNamesNoConfig :: "string list \<Rightarrow> string list" where
  "databaseNamesNoConfig databaseNamesFull =
     filter (\<lambda>name. name \<notin> set [''admin'', ''config'', ''local'']) databaseNamesFull"

text \<open>
  What \<^verbatim>\<open>runCli\<close> receives from outside before it clones: the outcome of connecting to the
  source and of listing its databases, the choices toggled at the selection prompt, the
  outcome of connecting to the destination, the user at the conflict prompts, and whether
  \<^verbatim>\<open>promptToBeSure\<close> returned \<^verbatim>\<open>"Y"\<close>. The destination's databases are listed through the
  driver. How the run ends is the console line it prints last; the \<^verbatim>\<open>finally\<close> block, which
  closes the connections, is left out.
\<close>

record 'u cli_inputs =
  source_connect :: "unit result"
  source_databaseNamesFull :: "string list result"
  selected_choices :: "string list"
  destination_connect :: "unit result"
  ask_conflict :: "string \<Rightarrow> 'u \<Rightarrow> action \<times> 'u"
  confirmed :: bool

datatype outcome =
    NoDatabasesFound
  | NoDatabasesSelected
  | CancelledDueToConflicts
  | NoDatabasesLeft
  | CancelledByUser
  | CloningCompleted
  | CloningFailed thrown

definition runCli ::
  "('s, bson) driver \<Rightarrow> (string \<Rightarrow> bson source_collection list) \<Rightarrow> 'u cli_inputs \<Rightarrow> bool
     \<Rightarrow> 'u \<Rightarrow> ('s, bson) world \<Rightarrow> (outcome \<times> 'u \<times> ('s, bson) world) option" where
  "runCli drv source inp skipIndexes u w =
     (case source_connect inp of
        Inl error \<Rightarrow> Some (CloningFailed error, u, w)
      | Inr connected \<Rightarrow>
     (case source_databaseNamesFull inp of
        Inl error \<Rightarrow> Some (CloningFailed error, u, w)
      | Inr sourceFull \<Rightarrow>
     (if databaseNamesNoConfig sourceFull = [] then Some (NoDatabasesFound, u, w)
      else
     (let selectedDatabases =
            promptDatabaseSelection (databaseNamesNoConfig sourceFull) (selected_choices inp)
      in
      if selectedDatabases = [] then Some (NoDatabasesSelected, u, w)
      else
     (case destination_connect inp of
        Inl error \<Rightarrow> Some (CloningFailed error, u, w)
      | Inr connected \<Rightarrow>
     (case call (listDatabases drv) EvListDatabases w of
        (Inl error, w1) \<Rightarrow> Some (CloningFailed error, u, w1)
      | (Inr destinationFull, w1) \<Rightarrow>
     (let destinationDatabases = databaseNamesNoConfig destinationFull;
          conflictingDatabases =
            filter (\<lambda>name. name \<in> set destinationDatabases) selectedDatabases
      in
      case (if conflictingDatabases \<noteq> []
            then promptConflictResolution (ask_conflict inp) conflictingDatabases u
            else (\<lparr>res_overwrite = [], res_skip = [], res_cancelled = False\<rparr>, u)) of
        (resolution, u1) \<Rightarrow>
          if res_cancelled resolution then Some (CancelledDueToConflicts, u1, w1)
          else
            (let databasesToClone =
                   filter (\<lambda>name. name \<notin> set (res_skip resolution)) selectedDatabases
             in
             if databasesToClone = [] then Some (NoDatabasesLeft, u1, w1)
             else if \<not> confirmed inp then Some (CancelledByUser, u1, w1)
             else
               (case cloneDatabases drv source databasesToClone
                       (filter (\<lambda>name. name \<in> set databasesToClone) (res_overwrite resolution))
                       skipIndexes w1 of
                  None \<Rightarrow> None
                | Some (Inl error, w2) \<Rightarrow> Some (CloningFailed error, u1, w2)
                | Some (Inr done, w2) \<Rightarrow> Some (CloningCompleted, u1, w2))))))))))"

section \<open>The externalization migrator: \<^verbatim>\<open>src/xronox/runner.ts\<close>\<close>

text \<open>
  A source record and a head document are objects: lists of named fields. \<open>field\<close> reads
  a field of an object's field list (\<open>JUndefined\<close> when absent) and \<open>get_prop\<close> reads a property of
  any value, as \<^verbatim>\<open>v?.name\<close> does: \<open>JUndefined\<close> unless the value is an object with that field.
\<close>

type_synonym fields = "(string \<times> jsval) list"

definition field :: "fields \<Rightarrow> string \<Rightarrow> jsval" where
  "field fs name = (case map_of fs name of Some v \<Rightarrow> v | None \<Rightarrow> JUndefined)"

fun get_prop :: "jsval \<Rightarrow> string \<Rightarrow> jsval" where
  "get_prop (JObj fs) name = field fs name"
| "get_prop v name = JUndefined"

text \<open>\<^verbatim>\<open>doc._system?.storage?.key\<close>\<close>

definition storage_key :: "jsval \<Rightarrow> jsval" where
  "storage_key doc = get_prop (get_prop (get_prop doc ''_system'') ''storage'') ''key''"

definition set_field :: "string \<Rightarrow> jsval \<Rightarrow> fields \<Rightarrow> fields" where
  "set_field name v fs =
     (if name \<in> set (map fst fs)
      then map (\<lambda>(k, old). if k = name then (k, v) else (k, old)) fs
      else fs @ [(name, v)])"

text \<open>
  \<^verbatim>\<open>s.trim() === ""\<close>: every character of the string is white space or a line terminator
  of ECMAScript. A string here is a list of 8-bit characters, the code points below U+0100;
  among them \<^verbatim>\<open>trim\<close> strips tab, line feed, vertical tab, form feed, carriage return, space
  and the no-break space U+00A0.
\<close>

definition trims_to_empty :: "string \<Rightarrow> bool" where
  "trims_to_empty s =
     list_all (\<lambda>c. c \<in> set [CHR 0x09, CHR 0x0A, CHR 0x0B, CHR 0x0C, CHR 0x0D, CHR '' '',
                              CHR 0xA0]) s"

text \<open>
  Everything the migrator calls and does not define: the head and base collections of the
  target database, the storage adapter, the router's bookkeeping, and the platform's
  \<^verbatim>\<open>toString\<close>, \<^verbatim>\<open>JSON.stringify\<close>, SHA-256, \<^verbatim>\<open>jsonKey\<close>, object spread of a value that is
  not a plain object, \<^verbatim>\<open>randomUUID\<close> and \<^verbatim>\<open>new Date()\<close>. The calls that can fail return the
  thrown value or the result, and the new state of the outside world.
\<close>

record 't xronox =
  toString :: "jsval \<Rightarrow> string"
  stringify :: "jsval \<Rightarrow> string"
  sha256_hex :: "string \<Rightarrow> string"
  jsonKey :: "string \<Rightarrow> string \<Rightarrow> nat \<Rightarrow> string"
  spread :: "jsval \<Rightarrow> fields"
  randomUUID :: "'t \<Rightarrow> string \<times> 't"
  new_Date :: "'t \<Rightarrow> nat \<times> 't"
  connectTarget :: "string \<Rightarrow> 't \<Rightarrow> string result \<times> 't"
  ensureIndexes :: "string \<Rightarrow> 't \<Rightarrow> unit result \<times> 't"
  head_findOne :: "string \<Rightarrow> jsval \<Rightarrow> 't \<Rightarrow> jsval option result \<times> 't"
  putJSON :: "string \<Rightarrow> string \<Rightarrow> jsval \<Rightarrow> 't \<Rightarrow> unit result \<times> 't"
  incCv :: "string \<Rightarrow> 't \<Rightarrow> jsval result \<times> 't"
  head_replaceOne :: "string \<Rightarrow> jsval \<Rightarrow> jsval \<Rightarrow> 't \<Rightarrow> unit result \<times> 't"
  base_replaceOne :: "string \<Rightarrow> jsval \<Rightarrow> jsval \<Rightarrow> 't \<Rightarrow> unit result \<times> 't"
  head_find :: "string \<Rightarrow> 't \<Rightarrow> jsval list result \<times> 't"
  getJSON :: "string \<Rightarrow> jsval \<Rightarrow> 't \<Rightarrow> unit result \<times> 't"
  shutdown :: "'t \<Rightarrow> unit result \<times> 't"

datatype xconsole =
    MigratingCollection string nat nat
  | NoDocumentsFound
  | Progress nat nat
  | Finished nat nat
  | ValidationFailed string jsval thrown
  | ValidationPassed nat
  | ValidationCompleted nat

datatype xevent =
    XConnectTarget string "string result"
  | XEnsureIndexes string "unit result"
  | XFindOne string jsval "jsval option result"
  | XRandomUUID string
  | XNewDate nat
  | XPutJSON string string jsval "unit result"
  | XIncCv string "jsval result"
  | XReplaceHead string jsval jsval "unit result"
  | XReplaceBase string jsval jsval "unit result"
  | XFindHeads string "jsval list result"
  | XGetJSON string jsval "unit result"
  | XShutdown "unit result"
  | XConsole xconsole

record 't xworld =
  outside :: 't
  xtrace :: "xevent list"

definition xemit :: "xevent \<Rightarrow> 't xworld \<Rightarrow> 't xworld" where
  "xemit e w = w\<lparr>xtrace := xtrace w @ [e]\<rparr>"

definition xcall ::
  "('t \<Rightarrow> 'a \<times> 't) \<Rightarrow> ('a \<Rightarrow> xevent) \<Rightarrow> 't xworld \<Rightarrow> 'a \<times> 't xworld" where
  "xcall operation ev w =
     (case operation (outside w) of (r, s') \<Rightarrow> (r, xemit (ev r) (w\<lparr>outside := s'\<rparr>)))"

text \<open>
  The payload of a record: the record without \<^verbatim>\<open>_id\<close> and \<^verbatim>\<open>_system\<close>, with a fresh
  \<^verbatim>\<open>randomUUID()\<close> as \<^verbatim>\<open>id\<close> when that field is falsy or a blank string.
\<close>

definition needs_id :: "fields \<Rightarrow> bool" where
  "needs_id payload =
     (\<not> truthy (field payload ''id'') \<or>
      (case field payload ''id'' of JStr s \<Rightarrow> trims_to_empty s | _ \<Rightarrow> False))"

definition derive_payload :: "'t xronox \<Rightarrow> fields \<Rightarrow> 't xworld \<Rightarrow> fields \<times> 't xworld" where
  "derive_payload x record w =
     (let payload = filter (\<lambda>(k, v). k \<noteq> ''_id'' \<and> k \<noteq> ''_system'') record
      in if needs_id payload
         then (case xcall (randomUUID x) XRandomUUID w of
                 (uuid, w1) \<Rightarrow> (set_field ''id'' (JStr uuid) payload, w1))
         else (payload, w))"

text \<open>
  \<^verbatim>\<open>metaIndexed\<close>: a copy of the record's \<^verbatim>\<open>metaIndexed\<close> when that is an object
  (\<^verbatim>\<open>typeof\<close> is \<^verbatim>\<open>"object"\<close> and it is not \<^verbatim>\<open>null\<close>), else empty; then the payload's \<^verbatim>\<open>id\<close>.
\<close>

definition derive_metaIndexed :: "'t xronox \<Rightarrow> fields \<Rightarrow> fields \<Rightarrow> fields" where
  "derive_metaIndexed x record payload =
     (let metaIndexed =
            (case field record ''metaIndexed'' of
               JObj fs \<Rightarrow> fs
             | JArr vs \<Rightarrow> spread x (JArr vs)
             | JDate d \<Rightarrow> spread x (JDate d)
             | JObjectId h \<Rightarrow> spread x (JObjectId h)
             | _ \<Rightarrow> [])
      in if field payload ''id'' \<noteq> JUndefined
         then set_field ''id'' (field payload ''id'') metaIndexed
         else metaIndexed)"

definition build_headDoc ::
  "jsval \<Rightarrow> fields \<Rightarrow> jsval \<Rightarrow> string \<Rightarrow> string \<Rightarrow> nat \<Rightarrow> string \<Rightarrow> nat \<Rightarrow> nat \<Rightarrow> fields
     \<Rightarrow> jsval" where
  "build_headDoc id' metaIndexed cv bucket key size' checksum createdAt updatedAt payload =
     JObj
       ([(''_id'', id'),
         (''metaIndexed'', JObj metaIndexed),
         (''_system'',
          JObj [(''ov'', JNum 0), (''cv'', cv),
                (''storage'',
                 JObj [(''bucket'', JStr bucket), (''key'', JStr key),
                       (''size'', JNum (int size')), (''checksum'', JStr checksum)]),
                (''timestamps'',
                 JObj [(''createdAt'', JDate createdAt), (''updatedAt'', JDate updatedAt)]),
                (''tracking'', JObj [(''jobIds'', JArr [])])])]
        @ (if field payload ''id'' \<noteq> JUndefined then [(''id'', field payload ''id'')] else []))"

text \<open>
  The part of \<^verbatim>\<open>migrateDocument\<close> after the resume check: derive the payload, upload it,
  increment the change version, build the head document and upsert it into the head
  collection and into the base collection. Any failing call throws.
\<close>

definition externalize ::
  "'t xronox \<Rightarrow> string \<Rightarrow> string \<Rightarrow> fields \<Rightarrow> jsval \<Rightarrow> 't xworld
     \<Rightarrow> string option result \<times> 't xworld" where
  "externalize x bucket collectionName record id' w =
     (case derive_payload x record w of
        (payload, w1) \<Rightarrow>
     (let idHex = toString x id';
          jsonContent = stringify x (JObj payload);
          size' = length jsonContent;
          checksum = sha256_hex x jsonContent;
          key = jsonKey x collectionName idHex 0
      in
      case xcall (putJSON x bucket key (JObj payload)) (XPutJSON bucket key (JObj payload)) w1 of
        (Inl error, w2) \<Rightarrow> (Inl error, w2)
      | (Inr uploaded, w2) \<Rightarrow>
     (case xcall (incCv x collectionName) (XIncCv collectionName) w2 of
        (Inl error, w3) \<Rightarrow> (Inl error, w3)
      | (Inr cv, w3) \<Rightarrow>
     (case xcall (new_Date x) XNewDate w3 of
        (createdAt, w4) \<Rightarrow>
     (case xcall (new_Date x) XNewDate w4 of
        (updatedAt, w5) \<Rightarrow>
     (let headDoc = build_headDoc id' (derive_metaIndexed x record payload) cv bucket key size'
                      checksum createdAt updatedAt payload
      in
      case xcall (head_replaceOne x collectionName id' headDoc)
             (XReplaceHead collectionName id' headDoc) w5 of
        (Inl error, w6) \<Rightarrow> (Inl error, w6)
      | (Inr replaced, w6) \<Rightarrow>
     (case xcall (base_replaceOne x collectionName id' headDoc)
             (XReplaceBase collectionName id' headDoc) w6 of
        (Inl error, w7) \<Rightarrow> (Inl error, w7)
      | (Inr replaced, w7) \<Rightarrow> (Inr (Some idHex), w7))))))))"

text \<open>
  \<^verbatim>\<open>migrateDocument\<close>: \<open>Inr None\<close> is the returned \<^verbatim>\<open>null\<close>, \<open>Inr (Some idHex)\<close> the returned
  \<^verbatim>\<open>{ idHex }\<close>.
\<close>

definition migrateDocument ::
  "'t xronox \<Rightarrow> string \<Rightarrow> string \<Rightarrow> fields \<Rightarrow> bool \<Rightarrow> 't xworld
     \<Rightarrow> string option result \<times> 't xworld" where
  "migrateDocument x bucket collectionName record resume w =
     (let id' = field record ''_id'' in
      if \<not> truthy id' then (Inr None, w)
      else if resume then
        (case xcall (head_findOne x collectionName id') (XFindOne collectionName id') w of
           (Inl error, w1) \<Rightarrow> (Inl error, w1)
         | (Inr existingHead, w1) \<Rightarrow>
             if (case existingHead of None \<Rightarrow> False | Some head \<Rightarrow> truthy (storage_key head))
             then (Inr None, w1)
             else externalize x bucket collectionName record id' w1)
      else externalize x bucket collectionName record id' w)"

text \<open>
  The cursor loop of \<^verbatim>\<open>migrateCollection\<close> over the source records, with the counter
  \<^verbatim>\<open>migrated\<close>. The source collection is read only here and its reads do not fail in this
  model; \<open>total'\<close> is its document count.
\<close>

fun migrate_loop ::
  "'t xronox \<Rightarrow> string \<Rightarrow> string \<Rightarrow> bool \<Rightarrow> nat \<Rightarrow> fields list \<Rightarrow> nat \<Rightarrow> 't xworld
     \<Rightarrow> nat result \<times> 't xworld" where
  "migrate_loop x bucket collectionName resume total' [] migrated w = (Inr migrated, w)"
| "migrate_loop x bucket collectionName resume total' (doc # rest) migrated w =
     (case migrateDocument x bucket collectionName doc resume w of
        (Inl error, w1) \<Rightarrow> (Inl error, w1)
      | (Inr None, w1) \<Rightarrow> migrate_loop x bucket collectionName resume total' rest migrated w1
      | (Inr (Some idHex), w1) \<Rightarrow>
          migrate_loop x bucket collectionName resume total' rest (migrated + 1)
            (xemit (XConsole (Progress (migrated + 1) total')) w1))"

text \<open>
  \<^verbatim>\<open>doc._id?.toString?.() ?? "unknown"\<close>
\<close>

definition id_text :: "'t xronox \<Rightarrow> jsval \<Rightarrow> string" where
  "id_text x doc =
     (case get_prop doc ''_id'' of
        JUndefined \<Rightarrow> ''unknown''
      | JNull \<Rightarrow> ''unknown''
      | v \<Rightarrow> toString x v)"

text \<open>
  The cursor loop of \<^verbatim>\<open>validateCollection\<close> over the head documents, with the counter
  \<^verbatim>\<open>validated\<close> and the array \<^verbatim>\<open>failures\<close>. A failed \<^verbatim>\<open>getJSON\<close> is caught.
\<close>

fun validate_loop ::
  "'t xronox \<Rightarrow> string \<Rightarrow> string \<Rightarrow> jsval list \<Rightarrow> nat \<Rightarrow> string list \<Rightarrow> 't xworld
     \<Rightarrow> nat \<times> string list \<times> 't xworld" where
  "validate_loop x bucket collectionName [] validated failures w = (validated, failures, w)"
| "validate_loop x bucket collectionName (doc # rest) validated failures w =
     (if \<not> truthy (storage_key doc)
      then validate_loop x bucket collectionName rest validated failures w
      else (case xcall (getJSON x bucket (storage_key doc)) (XGetJSON bucket (storage_key doc)) w of
              (Inr got, w1) \<Rightarrow>
                validate_loop x bucket collectionName rest (validated + 1) failures w1
            | (Inl error, w1) \<Rightarrow>
                validate_loop x bucket collectionName rest validated
                  (failures @ [id_text x doc])
                  (xemit (XConsole (ValidationFailed collectionName (storage_key doc) error)) w1)))"

definition validateCollection ::
  "'t xronox \<Rightarrow> string \<Rightarrow> string \<Rightarrow> 't xworld \<Rightarrow> unit result \<times> 't xworld" where
  "validateCollection x bucket collectionName w =
     (case xcall (head_find x collectionName) (XFindHeads collectionName) w of
        (Inl error, w1) \<Rightarrow> (Inl error, w1)
      | (Inr docs, w1) \<Rightarrow>
          (case validate_loop x bucket collectionName docs 0 [] w1 of
             (validated, failures, w2) \<Rightarrow>
               (Inr (),
                xemit (XConsole (if failures = [] then ValidationPassed validated
                                 else ValidationCompleted (length failures))) w2)))"

text \<open>
  \<^verbatim>\<open>migrateCollection\<close>, for the source records of one collection. \<open>connectTarget\<close> stands for
  \<^verbatim>\<open>router.route\<close>, \<^verbatim>\<open>router.getMongoClient\<close> and \<^verbatim>\<open>router.getSpaces\<close>, and returns the bucket.
\<close>

definition migrateCollection ::
  "'t xronox \<Rightarrow> string \<Rightarrow> fields list \<Rightarrow> bool \<Rightarrow> bool \<Rightarrow> 't xworld \<Rightarrow> unit result \<times> 't xworld" where
  "migrateCollection x collectionName records resume validate w =
     (let total' = length records in
      if total' = 0 then (Inr (), xemit (XConsole NoDocumentsFound) w)
      else
     (case xcall (connectTarget x collectionName) (XConnectTarget collectionName) w of
        (Inl error, w1) \<Rightarrow> (Inl error, w1)
      | (Inr bucket, w1) \<Rightarrow>
     (case xcall (ensureIndexes x collectionName) (XEnsureIndexes collectionName) w1 of
        (Inl error, w2) \<Rightarrow> (Inl error, w2)
      | (Inr ensured, w2) \<Rightarrow>
     (case migrate_loop x bucket collectionName resume total' records 0 w2 of
        (Inl error, w3) \<Rightarrow> (Inl error, w3)
      | (Inr migrated, w3) \<Rightarrow>
          (let w4 = xemit (XConsole (Finished migrated total')) w3
           in if validate then validateCollection x bucket collectionName w4
              else (Inr (), w4))))))"

text \<open>
  \<^verbatim>\<open>migrateCollections\<close>: the collections in order, then \<^verbatim>\<open>router.shutdown()\<close> in the
  \<^verbatim>\<open>finally\<close> block, whose error, if any, replaces the loop's.
\<close>

fun migrateCollections_loop ::
  "'t xronox \<Rightarrow> (string \<Rightarrow> fields list) \<Rightarrow> bool \<Rightarrow> bool \<Rightarrow> nat \<Rightarrow> nat \<Rightarrow> string list
     \<Rightarrow> 't xworld \<Rightarrow> unit result \<times> 't xworld" where
  "migrateCollections_loop x source resume validate i n [] w = (Inr (), w)"
| "migrateCollections_loop x source resume validate i n (collectionName # rest) w =
     (case migrateCollection x collectionName (source collectionName) resume validate
             (xemit (XConsole (MigratingCollection collectionName (i + 1) n)) w) of
        (Inl error, w1) \<Rightarrow> (Inl error, w1)
      | (Inr migrated, w1) \<Rightarrow> migrateCollections_loop x source resume validate (i + 1) n rest w1)"

definition migrateCollections ::
  "'t xronox \<Rightarrow> (string \<Rightarrow> fields list) \<Rightarrow> string list \<Rightarrow> bool \<Rightarrow> bool \<Rightarrow> 't xworld
     \<Rightarrow> unit result \<times> 't xworld" where
  "migrateCollections x source collections resume validate w =
     (case migrateCollections_loop x source resume validate 0 (length collections) collections w of
        (r, w1) \<Rightarrow>
          (case xcall (shutdown x) XShutdown w1 of
             (Inl error, w2) \<Rightarrow> (Inl error, w2)
           | (Inr closed, w2) \<Rightarrow> (r, w2)))"

section \<open>Observations on a trace\<close>

text \<open>
  The timers set, the bulk inserts (\<^verbatim>\<open>insertMany\<close>) and the single inserts (\<^verbatim>\<open>insertOne\<close>)
  recorded in a trace, in order, each insert with its target, its documents and its outcome.
\<close>

fun timer_of :: "'k event \<Rightarrow> nat list" where
  "timer_of (EvSetTimeout d) = [d]"
| "timer_of _ = []"

definition timers :: "'k event list \<Rightarrow> nat list" where
  "timers evs = concat (map timer_of evs)"

fun bulk_of :: "'k event \<Rightarrow> (coll_ref \<times> 'k document list \<times> unit result) list" where
  "bulk_of (EvInsertMany dc docs r) = [(dc, docs, r)]"
| "bulk_of _ = []"

definition bulk_inserts :: "'k event list \<Rightarrow> (coll_ref \<times> 'k document list \<times> unit result) list" where
  "bulk_inserts evs = concat (map bulk_of evs)"

fun single_of :: "'k event \<Rightarrow> (coll_ref \<times> 'k document \<times> unit result) list" where
  "single_of (EvInsertOne dc doc r) = [(dc, doc, r)]"
| "single_of _ = []"

definition single_inserts :: "'k event list \<Rightarrow> (coll_ref \<times> 'k document \<times> unit result) list" where
  "single_inserts evs = concat (map single_of evs)"





text \<open>
  The bulk attempts of \<^verbatim>\<open>insertBatch\<close> on their own: the same recursion, cut where
  \<^verbatim>\<open>insertBatch\<close> either returns or hands the batch to \<^verbatim>\<open>insertIndividually\<close>. It returns
  the error handed over (\<open>None\<close> after a successful bulk insert), the number of the last
  attempt, and the world at that point. Lemma \<open>insertBatch_bulk_phase\<close> relates the two.
\<close>

function bulk_phase ::
  "('s, 'k) driver \<Rightarrow> coll_ref \<Rightarrow> 'k document list \<Rightarrow> nat \<Rightarrow> ('s, 'k) world
     \<Rightarrow> thrown option \<times> nat \<times> ('s, 'k) world" where
  "bulk_phase drv dc documents attempt w =
     (case call (insertMany drv dc documents) (EvInsertMany dc documents) w of
        (Inr u, w1) \<Rightarrow> (None, attempt, w1)
      | (Inl error, w1) \<Rightarrow>
          if \<not> isNetworkError error \<or> attempt \<ge> MAX_RETRIES
          then (Some error, attempt, w1)
          else bulk_phase drv dc documents (attempt + 1) (backoff drv dc error attempt w1))"
  by pat_completeness auto
termination
  by (relation "measure (\<lambda>(drv, dc, documents, attempt, w). MAX_RETRIES - attempt)") auto

definition reply_of :: "thrown option \<Rightarrow> unit result" where
  "reply_of x = (case x of None \<Rightarrow> Inr () | Some error \<Rightarrow> Inl error)"

text \<open>
  The events that writing a batch to the collection \<open>dc\<close> may leave in the trace: inserts
  into \<open>dc\<close>, pings of its database, timers and console lines.
\<close>

fun writer_event :: "coll_ref \<Rightarrow> 'k event \<Rightarrow> bool" where
  "writer_event dc (EvInsertMany dc' docs r) = (dc' = dc)"
| "writer_event dc (EvInsertOne dc' doc r) = (dc' = dc)"
| "writer_event dc (EvPing db r) = (db = fst dc)"
| "writer_event dc (EvSetTimeout d) = True"
| "writer_event dc (EvConsole line) = True"
| "writer_event dc _ = False"

text \<open>The pages read from the source, in order, each with the last-seen key it was asked for.\<close>

fun find_of :: "'k event \<Rightarrow> ('k option \<times> 'k document list) list" where
  "find_of (EvFind dc lastId page) = [(lastId, page)]"
| "find_of _ = []"

definition pages_read :: "'k event list \<Rightarrow> ('k option \<times> 'k document list) list" where
  "pages_read evs = concat (map find_of evs)"

text \<open>
  What the reader's contract asks of a sequence of pages, read with \<open>prev\<close> as the last-seen
  key so far: each page is asked for with the last-seen key of the page before it (the
  \<^verbatim>\<open>_id\<close> of its last document), holds at most \<open>PAGE_SIZE\<close> documents, in ascending order of
  \<^verbatim>\<open>_id\<close>, all of them matching the filter for that key (any document when there is none,
  else a key of the same type
  that is strictly greater); an empty page is the last one.
\<close>

fun pages_in_order :: "bson option \<Rightarrow> (bson option \<times> bson document list) list \<Rightarrow> bool" where
  "pages_in_order prev [] = True"
| "pages_in_order prev ((lastId, page) # rest) =
     (lastId = prev \<and> length page \<le> PAGE_SIZE \<and> sorted (map doc_id page) \<and>
      (\<forall>d\<in>set page. find_filter prev d) \<and>
      (if page = [] then rest = [] else pages_in_order (doc_id (last page)) rest))"

text \<open>
  The destination's state after an event: the state the recorded call leaves, for a call on
  the destination; unchanged for a source read, a timer or a console line. \<open>replay\<close> runs a
  list of events.
\<close>

fun exec :: "('s, 'k) driver \<Rightarrow> 'k event \<Rightarrow> 's \<Rightarrow> 's" where
  "exec drv (EvListDatabases r) s = snd (listDatabases drv s)"
| "exec drv (EvDropDatabase db r) s = snd (dropDatabase drv db s)"
| "exec drv (EvListCollections db r) s = snd (listCollections drv db s)"
| "exec drv (EvDropCollection dc r) s = snd (dropCollection drv dc s)"
| "exec drv (EvCreateCollection dc opts r) s = snd (createCollection drv dc opts s)"
| "exec drv (EvInsertMany dc docs r) s = snd (insertMany drv dc docs s)"
| "exec drv (EvInsertOne dc doc r) s = snd (insertOne drv dc doc s)"
| "exec drv (EvPing db r) s = snd (ping drv db s)"
| "exec drv (EvCreateIndex dc k opts r) s = snd (createIndex drv dc k opts s)"
| "exec drv (EvFind dc lastId page) s = s"
| "exec drv (EvSetTimeout d) s = s"
| "exec drv (EvConsole line) s = s"

definition replay :: "('s, 'k) driver \<Rightarrow> 'k event list \<Rightarrow> 's \<Rightarrow> 's" where
  "replay drv evs s = foldl (\<lambda>s e. exec drv e s) s evs"

text \<open>
  The events that act on the destination collection \<open>dc\<close>: dropping its database, dropping
  or creating the collection, inserting documents into it, creating an index on it.
\<close>

fun touches :: "coll_ref \<Rightarrow> 'k event \<Rightarrow> bool" where
  "touches dc (EvDropDatabase db r) = (db = fst dc)"
| "touches dc (EvDropCollection dc' r) = (dc' = dc)"
| "touches dc (EvCreateCollection dc' opts r) = (dc' = dc)"
| "touches dc (EvInsertMany dc' docs r) = (dc' = dc)"
| "touches dc (EvInsertOne dc' doc r) = (dc' = dc)"
| "touches dc (EvCreateIndex dc' k opts r) = (dc' = dc)"
| "touches dc _ = False"

text \<open>
  \<open>steps drv allowed w w'\<close>: the world \<open>w'\<close> is reached from \<open>w\<close> by recorded events only, all of
  them \<open>allowed\<close>, and the destination's state is the one these events' calls lead to.
\<close>

definition steps :: "('s, 'k) driver \<Rightarrow> ('k event \<Rightarrow> bool) \<Rightarrow> ('s, 'k) world \<Rightarrow> ('s, 'k) world \<Rightarrow> bool" where
  "steps drv allowed w w' =
     (\<exists>evs. trace w' = trace w @ evs \<and> dest w' = replay drv evs (dest w) \<and> (\<forall>e\<in>set evs. allowed e))"

section \<open>Observations on the migrator\<close>

text \<open>
  Observations on the migrator's trace. The writes: uploads, change-version increments
  and upserts of head documents. The resume lookups, and whether a lookup found a head
  with a non-empty storage key. The read-backs of the validation pass that failed (with
  the key and the error) and that succeeded, the console lines, the events a validation
  pass may leave, and the console lines that count a record as migrated.
\<close>

fun is_write :: "xevent \<Rightarrow> bool" where
  "is_write (XPutJSON bucket key payload r) = True"
| "is_write (XIncCv cn r) = True"
| "is_write (XReplaceHead cn i doc r) = True"
| "is_write (XReplaceBase cn i doc r) = True"
| "is_write _ = False"

fun is_lookup :: "xevent \<Rightarrow> bool" where
  "is_lookup (XFindOne cn i r) = True"
| "is_lookup _ = False"

fun lookup_found :: "xevent \<Rightarrow> bool" where
  "lookup_found (XFindOne cn i r) =
     (case r of Inr (Some head) \<Rightarrow> truthy (storage_key head) | _ \<Rightarrow> False)"
| "lookup_found _ = True"

fun failed_read_of :: "xevent \<Rightarrow> (jsval \<times> thrown) list" where
  "failed_read_of (XGetJSON bucket key (Inl error)) = [(key, error)]"
| "failed_read_of _ = []"

definition failed_reads :: "xevent list \<Rightarrow> (jsval \<times> thrown) list" where
  "failed_reads evs = concat (map failed_read_of evs)"

fun ok_read_of :: "xevent \<Rightarrow> jsval list" where
  "ok_read_of (XGetJSON bucket key (Inr got)) = [key]"
| "ok_read_of _ = []"

definition ok_reads :: "xevent list \<Rightarrow> jsval list" where
  "ok_reads evs = concat (map ok_read_of evs)"

fun line_of :: "xevent \<Rightarrow> xconsole list" where
  "line_of (XConsole line) = [line]"
| "line_of _ = []"

definition xlines :: "xevent list \<Rightarrow> xconsole list" where
  "xlines evs = concat (map line_of evs)"

fun validation_event :: "xevent \<Rightarrow> bool" where
  "validation_event (XFindHeads cn r) = True"
| "validation_event (XGetJSON bucket key r) = True"
| "validation_event (XConsole (ValidationFailed cn key error)) = True"
| "validation_event (XConsole (ValidationPassed n)) = True"
| "validation_event (XConsole (ValidationCompleted n)) = True"
| "validation_event _ = False"

fun counts_migrated :: "xevent \<Rightarrow> bool" where
  "counts_migrated (XConsole (Progress m t)) = True"
| "counts_migrated (XConsole (Finished m t)) = (m \<noteq> 0)"
| "counts_migrated _ = False"

section \<open>An in-memory destination\<close>

text \<open>
  A small destination used to run the model on concrete inputs: collections with their
  documents and index names, and a script of outcomes for the next inserts (\<open>Some e\<close>: the
  insert throws \<open>e\<close> and stores nothing; \<open>None\<close>, or an empty script: it stores the documents).
\<close>

record 'k memory =
  colls :: "(coll_ref \<times> 'k document list \<times> string list) list"
  script :: "thrown option list"

definition mem_update ::
  "coll_ref \<Rightarrow> ('k document list \<times> string list \<Rightarrow> 'k document list \<times> string list)
     \<Rightarrow> 'k memory \<Rightarrow> 'k memory" where
  "mem_update dc f m =
     m\<lparr>colls := (if dc \<in> set (map fst (colls m))
                 then map (\<lambda>(c, x). if c = dc then (c, f x) else (c, x)) (colls m)
                 else colls m @ [(dc, f ([], []))])\<rparr>"

fun names_in :: "string \<Rightarrow> (coll_ref \<times> 'a) list \<Rightarrow> string list" where
  "names_in db [] = []"
| "names_in db (((d, c), x) # rest) = (if d = db then c # names_in db rest else names_in db rest)"

definition mem_insert :: "coll_ref \<Rightarrow> 'k document list \<Rightarrow> 'k memory \<Rightarrow> unit result \<times> 'k memory" where
  "mem_insert dc docs m =
     (case script m of
        Some e # rest \<Rightarrow> (Inl e, m\<lparr>script := rest\<rparr>)
      | None # rest \<Rightarrow> (Inr (), mem_update dc (\<lambda>(ds, ix). (ds @ docs, ix)) (m\<lparr>script := rest\<rparr>))
      | [] \<Rightarrow> (Inr (), mem_update dc (\<lambda>(ds, ix). (ds @ docs, ix)) m))"

definition memory_driver :: "('k memory, 'k) driver" where
  "memory_driver =
     \<lparr>listDatabases = (\<lambda>m. (Inr (remdups (map (fst \<circ> fst) (colls m))), m)),
      dropDatabase = (\<lambda>db m. (Inr (), m\<lparr>colls := filter (\<lambda>(c, x). fst c \<noteq> db) (colls m)\<rparr>)),
      listCollections = (\<lambda>db m. (Inr (names_in db (colls m)), m)),
      dropCollection = (\<lambda>dc m. (Inr (), m\<lparr>colls := filter (\<lambda>(c, x). c \<noteq> dc) (colls m)\<rparr>)),
      createCollection = (\<lambda>dc opts m.
        if dc \<in> set (map fst (colls m))
        then (Inl (Thrown False True ''Collection already exists''), m)
        else (Inr (), mem_update dc id m)),
      insertMany = mem_insert,
      insertOne = (\<lambda>dc doc. mem_insert dc [doc]),
      ping = (\<lambda>db m. (Inr (), m)),
      createIndex = (\<lambda>dc k opts m. (Inr (), mem_update dc (\<lambda>(ds, ix). (ds, ix @ [k])) m))\<rparr>"

definition start :: "(coll_ref \<times> 'k document list \<times> string list) list \<Rightarrow> thrown option list
    \<Rightarrow> ('k memory, 'k) world" where
  "start cs outcomes = \<lparr>dest = \<lparr>colls = cs, script = outcomes\<rparr>, trace = []\<rparr>"

definition ETIMEDOUT :: thrown where
  "ETIMEDOUT = Thrown False True ''read ETIMEDOUT''"

definition SOCKET_CLOSED :: thrown where
  "SOCKET_CLOSED = Thrown True True ''connection 3 to 10.0.0.1:27017 closed''"

definition DUPLICATE_KEY :: thrown where
  "DUPLICATE_KEY = Thrown False True ''E11000 duplicate key error collection: shop.orders''"

definition orders :: "bson document list" where
  "orders = [Document (Some (BNumber 3)) ''c'', Document (Some (BNumber 1)) ''a'', Document (Some (BNumber 2)) ''b'']"

definition orders25 :: "bson document list" where
  "orders25 = map (\<lambda>i. Document (Some (BNumber (int i))) []) (rev [1..<26])"

definition catalog :: "bson document list" where
  "catalog =
     map (\<lambda>i. Document (Some (BNumber (int i))) []) [1..<11]
       @ [Document (Some (BString ''a'')) [], Document (Some (BString ''b'')) []]"

definition shop_source :: "string \<Rightarrow> bson source_collection list" where
  "shop_source db =
     (if db = ''shop''
      then [\<lparr>coll_name = ''users'', coll_options = None,
             coll_docs = [Document (Some (BNumber 1)) ''new'', Document (Some (BNumber 2)) ''new''],
             coll_indexes = [\<lparr>index_name = ''email_1'', index_key = ''email'',
                              index_fields = [(''unique'', JBool True)]\<rparr>]\<rparr>,
            \<lparr>coll_name = ''orders'', coll_options = Some [(''capped'', None)],
             coll_docs = orders,
             coll_indexes = [\<lparr>index_name = ''_id_'', index_key = ''_id'', index_fields = []\<rparr>,
                             \<lparr>index_name = ''total_1'', index_key = ''total'',
                              index_fields = [(''sparse'', JBool True), (''v'', JNum 2)]\<rparr>]\<rparr>]
      else [])"

definition shop_destination :: "(coll_ref \<times> bson document list \<times> string list) list" where
  "shop_destination = [((''shop'', ''users''), ([Document (Some (BNumber 7)) ''old''], [''name'']))]"

text \<open>
  A user who answers from a list of prepared actions (and cancels when it runs out), and
  whose state also records the databases asked about.
\<close>

definition scripted_user :: "string \<Rightarrow> action list \<times> string list \<Rightarrow> action \<times> (action list \<times> string list)" where
  "scripted_user dbName u =
     (case fst u of
        [] \<Rightarrow> (Cancel, ([], snd u @ [dbName]))
      | a # rest \<Rightarrow> (a, (rest, snd u @ [dbName])))"

definition three_databases :: "(coll_ref \<times> bson document list \<times> string list) list" where
  "three_databases =
     [((''alpha'', ''users''), ([Document (Some (BNumber 7)) ''old''], [''name''])),
      ((''beta'', ''users''), ([Document (Some (BNumber 8)) ''old''], [])),
      ((''gamma'', ''users''), ([], []))]"

definition cli_example :: "(action list \<times> string list) cli_inputs" where
  "cli_example =
     \<lparr>source_connect = Inr (),
      source_databaseNamesFull = Inr [''admin'', ''alpha'', ''beta'', ''gamma'', ''delta'', ''local''],
      selected_choices = [''[Select All]''],
      destination_connect = Inr (),
      ask_conflict = scripted_user,
      confirmed = True\<rparr>"

section \<open>An in-memory target for the migrator\<close>

text \<open>
  Head documents by \<^verbatim>\<open>_id\<close> (the newest first), the stored objects by key, and the change
  version counter; reading back a key that has no object fails.
\<close>

record xmemory =
  heads :: "(jsval \<times> jsval) list"
  objects :: "(string \<times> jsval) list"
  counter :: nat

definition NO_SUCH_KEY :: thrown where
  "NO_SUCH_KEY = Thrown False True ''NoSuchKey''"

definition memory_xronox :: "xmemory xronox" where
  "memory_xronox =
     \<lparr>toString = (\<lambda>v. case v of JObjectId h \<Rightarrow> h | JStr s \<Rightarrow> s | _ \<Rightarrow> ''?''),
      stringify = (\<lambda>v. ''{}''),
      sha256_hex = (\<lambda>s. ''44136fa3''),
      jsonKey = (\<lambda>cn idHex rev. cn @ ''/'' @ idHex @ ''.json''),
      spread = (\<lambda>v. []),
      randomUUID = (\<lambda>m. (''uuid'', m)),
      new_Date = (\<lambda>m. (0, m)),
      connectTarget = (\<lambda>cn m. (Inr ''bucket'', m)),
      ensureIndexes = (\<lambda>cn m. (Inr (), m)),
      head_findOne = (\<lambda>cn i m. (Inr (map_of (heads m) i), m)),
      putJSON = (\<lambda>b key payload m. (Inr (), m\<lparr>objects := objects m @ [(key, payload)]\<rparr>)),
      incCv = (\<lambda>cn m. (Inr (JNum (int (counter m) + 1)), m\<lparr>counter := counter m + 1\<rparr>)),
      head_replaceOne = (\<lambda>cn i doc m. (Inr (), m\<lparr>heads := (i, doc) # heads m\<rparr>)),
      base_replaceOne = (\<lambda>cn i doc m. (Inr (), m)),
      head_find = (\<lambda>cn m. (Inr (map snd (heads m)), m)),
      getJSON = (\<lambda>b key m.
        (case key of
           JStr k \<Rightarrow> if k \<in> set (map fst (objects m)) then Inr () else Inl NO_SUCH_KEY
         | _ \<Rightarrow> Inl NO_SUCH_KEY, m)),
      shutdown = (\<lambda>m. (Inr (), m))\<rparr>"

definition pointer :: "string \<Rightarrow> string \<Rightarrow> jsval" where
  "pointer i key =
     JObj [(''_id'', JObjectId i),
           (''_system'', JObj [(''storage'', JObj [(''key'', JStr key)])])]"

definition migrated_people :: "xmemory xworld" where
  "migrated_people =
     \<lparr>outside =
        \<lparr>heads = [(JObjectId ''a1'', pointer ''a1'' ''people/a1.json''),
                  (JObjectId ''b2'', pointer ''b2'' ''people/b2.json''),
                  (JObjectId ''c3'', pointer ''c3'' ''people/c3.json'')],
         objects = [(''people/b2.json'', JObj []), (''people/c3.json'', JObj [])],
         counter = 3\<rparr>,
      xtrace = []\<rparr>"

definition people :: "fields list" where
  "people =
     [[(''_id'', JObjectId ''a1''), (''name'', JStr ''Ann'')],
      [(''name'', JStr ''Nobody'')],
      [(''_id'', JObjectId ''b2''), (''id'', JStr ''  '')],
      [(''_id'', JObjectId ''c3''), (''id'', JStr ''c'')]]"

section \<open>Proofs\<close>

lemma trace_emit [simp]: "trace (emit e w) = trace w @ [e]"
  by (simp add: emit_def)

lemma dest_emit [simp]: "dest (emit e w) = dest w"
  by (simp add: emit_def)

lemma call_eq:
  "call operation ev w =
     (fst (operation (dest w)),
      emit (ev (fst (operation (dest w)))) (w\<lparr>dest := snd (operation (dest w))\<rparr>))"
  by (simp add: call_def split: prod.splits)

lemma trace_call: "call operation ev w = (r, w') \<Longrightarrow> trace w' = trace w @ [ev r]"
  by (auto simp: call_eq)

lemma timers_append [simp]: "timers (xs @ ys) = timers xs @ timers ys"
  by (simp add: timers_def)

lemma bulk_inserts_append [simp]: "bulk_inserts (xs @ ys) = bulk_inserts xs @ bulk_inserts ys"
  by (simp add: bulk_inserts_def)

lemma single_inserts_append [simp]:
  "single_inserts (xs @ ys) = single_inserts xs @ single_inserts ys"
  by (simp add: single_inserts_def)

lemma timers_simps [simp]: "timers [] = []" "timers (e # es) = timer_of e @ timers es"
  by (simp_all add: timers_def)

lemma bulk_inserts_simps [simp]:
  "bulk_inserts [] = []" "bulk_inserts (e # es) = bulk_of e @ bulk_inserts es"
  by (simp_all add: bulk_inserts_def)

lemma single_inserts_simps [simp]:
  "single_inserts [] = []" "single_inserts (e # es) = single_of e @ single_inserts es"
  by (simp_all add: single_inserts_def)

lemma backoff_trace:
  "timers (trace (backoff drv dc error attempt w)) = timers (trace w) @ [delay attempt]"
  "bulk_inserts (trace (backoff drv dc error attempt w)) = bulk_inserts (trace w)"
  "single_inserts (trace (backoff drv dc error attempt w)) = single_inserts (trace w)"
  by (auto simp: backoff_def Let_def call_eq split: prod.splits sum.splits)

lemma insertBatch_bulk_phase:
  "insertBatch drv dc documents attempt w =
     (case bulk_phase drv dc documents attempt w of
        (None, n, wm) \<Rightarrow> (Inr (), wm)
      | (Some error, n, wm) \<Rightarrow> insertIndividually drv dc documents wm)"
proof (induction drv dc documents attempt w rule: insertBatch.induct)
  case (1 drv dc documents attempt w)
  show ?case
  proof (cases "call (insertMany drv dc documents) (EvInsertMany dc documents) w")
    case (Pair r w1)
    show ?thesis
    proof (cases r)
      case (Inr u)
      with Pair show ?thesis by simp
    next
      case (Inl error)
      show ?thesis
      proof (cases "\<not> isNetworkError error \<or> attempt \<ge> MAX_RETRIES")
        case True
        with Pair Inl show ?thesis by simp
      next
        case False
        with Pair Inl "1.IH" show ?thesis by simp
      qed
    qed
  qed
qed

lemma bulk_phase_rule [consumes 1, case_names ok stop retry]:
  assumes run: "bulk_phase drv dc documents attempt w = (x, n, wm)"
    and ok: "\<And>attempt w w1.
       call (insertMany drv dc documents) (EvInsertMany dc documents) w = (Inr (), w1)
       \<Longrightarrow> P attempt w None attempt w1"
    and stop: "\<And>attempt w error w1.
       call (insertMany drv dc documents) (EvInsertMany dc documents) w = (Inl error, w1)
       \<Longrightarrow> \<not> isNetworkError error \<or> MAX_RETRIES \<le> attempt
       \<Longrightarrow> P attempt w (Some error) attempt w1"
    and retry: "\<And>attempt w error w1 x n wm.
       call (insertMany drv dc documents) (EvInsertMany dc documents) w = (Inl error, w1)
       \<Longrightarrow> isNetworkError error \<Longrightarrow> attempt < MAX_RETRIES
       \<Longrightarrow> bulk_phase drv dc documents (attempt + 1) (backoff drv dc error attempt w1) = (x, n, wm)
       \<Longrightarrow> P (attempt + 1) (backoff drv dc error attempt w1) x n wm
       \<Longrightarrow> P attempt w x n wm"
  shows "P attempt w x n wm"
  using run ok stop retry
proof (induction drv dc documents attempt w rule: bulk_phase.induct)
  case (1 drv dc documents attempt w)
  note ok = "1.prems"(2) and stop = "1.prems"(3) and retry = "1.prems"(4)
  obtain r w1 where c: "call (insertMany drv dc documents) (EvInsertMany dc documents) w = (r, w1)"
    by (cases "call (insertMany drv dc documents) (EvInsertMany dc documents) w")
  show ?case
  proof (cases r)
    case (Inr u)
    with c have c': "call (insertMany drv dc documents) (EvInsertMany dc documents) w = (Inr (), w1)"
      by simp
    with "1.prems"(1) have "x = None" "n = attempt" "wm = w1" by simp_all
    with ok[OF c'] show ?thesis by simp
  next
    case (Inl error)
    with c have c': "call (insertMany drv dc documents) (EvInsertMany dc documents) w = (Inl error, w1)"
      by simp
    show ?thesis
    proof (cases "\<not> isNetworkError error \<or> attempt \<ge> MAX_RETRIES")
      case True
      with c' "1.prems"(1) have "x = Some error" "n = attempt" "wm = w1" by auto
      with stop[OF c' True] show ?thesis by simp
    next
      case False
      from False c Inl "1.prems"(1)
      have rec: "bulk_phase drv dc documents (attempt + 1) (backoff drv dc error attempt w1) = (x, n, wm)"
        by simp
      have "P (attempt + 1) (backoff drv dc error attempt w1) x n wm"
        by (rule "1.IH"[OF c[symmetric] Inl False rec ok stop retry])
      with retry[OF c' _ _ rec] False show ?thesis by auto
    qed
  qed
qed

lemma bulk_phase_range:
  "bulk_phase drv dc documents attempt w = (x, n, wm) \<Longrightarrow>
     attempt \<le> n \<and> (n \<le> MAX_RETRIES \<or> n = attempt)"
  by (induction rule: bulk_phase_rule) auto

lemma bulk_phase_timers:
  "bulk_phase drv dc documents attempt w = (x, n, wm) \<Longrightarrow>
     attempt \<le> n \<and> timers (trace wm) = timers (trace w) @ map delay [attempt..<n]"
proof (induction rule: bulk_phase_rule)
  case (retry attempt w error w1 x n wm)
  then show ?case
    by (auto simp: backoff_trace upt_conv_Cons dest: trace_call)
qed (auto dest: trace_call)

lemma bulk_phase_single_inserts:
  "bulk_phase drv dc documents attempt w = (x, n, wm) \<Longrightarrow>
     single_inserts (trace wm) = single_inserts (trace w)"
  by (induction rule: bulk_phase_rule) (auto simp: backoff_trace dest: trace_call)

lemma bulk_phase_stop:
  "bulk_phase drv dc documents attempt w = (Some error, n, wm) \<Longrightarrow>
     \<not> isNetworkError error \<or> MAX_RETRIES \<le> n"
proof -
  have "bulk_phase drv dc documents attempt w = (x, n, wm) \<Longrightarrow>
        \<forall>error. x = Some error \<longrightarrow> \<not> isNetworkError error \<or> MAX_RETRIES \<le> n" for x
    by (induction rule: bulk_phase_rule) auto
  then show "bulk_phase drv dc documents attempt w = (Some error, n, wm) \<Longrightarrow>
     \<not> isNetworkError error \<or> MAX_RETRIES \<le> n"
    by blast
qed

lemma bulk_phase_bulk_inserts:
  "bulk_phase drv dc documents attempt w = (x, n, wm) \<Longrightarrow>
     \<exists>errors. length errors = n - attempt \<and> (\<forall>e\<in>set errors. isNetworkError e) \<and>
       bulk_inserts (trace wm) =
         bulk_inserts (trace w) @ map (\<lambda>e. (dc, documents, Inl e)) errors
           @ [(dc, documents, reply_of x)]"
proof (induction rule: bulk_phase_rule)
  case (ok attempt w w1)
  then show ?case by (auto simp: reply_of_def dest: trace_call)
next
  case (stop attempt w error w1)
  then show ?case by (auto simp: reply_of_def dest: trace_call)
next
  case (retry attempt w error w1 x n wm)
  then obtain errors where e: "length errors = n - (attempt + 1)"
      "\<forall>e\<in>set errors. isNetworkError e"
      "bulk_inserts (trace wm) =
         bulk_inserts (trace (backoff drv dc error attempt w1))
           @ map (\<lambda>e. (dc, documents, Inl e)) errors @ [(dc, documents, reply_of x)]"
    by blast
  from retry(4) have "attempt + 1 \<le> n" by (simp add: bulk_phase_range)
  with e retry(1,2) show ?case
    by (intro exI[of _ "error # errors"]) (auto simp: backoff_trace dest: trace_call)
qed


lemma insertIndividually_doc_attempts:
  "insertIndividually_doc drv dc doc attempt w = (r, w') \<Longrightarrow> attempt \<le> MAX_RETRIES \<Longrightarrow>
     \<exists>n errors. attempt \<le> n \<and> n \<le> MAX_RETRIES \<and> length errors = n - attempt \<and>
       (\<forall>e\<in>set errors. isNetworkError e) \<and>
       single_inserts (trace w') =
         single_inserts (trace w) @ map (\<lambda>e. (dc, doc, Inl e)) errors @ [(dc, doc, r)] \<and>
       timers (trace w') = timers (trace w) @ map delay [attempt..<n] \<and>
       bulk_inserts (trace w') = bulk_inserts (trace w) \<and>
       (\<forall>e. r = Inl e \<longrightarrow> \<not> isNetworkError e \<or> n = MAX_RETRIES)"
proof (induction drv dc doc attempt w rule: insertIndividually_doc.induct)
  case (1 drv dc doc attempt w)
  obtain r1 w1 where c: "call (insertOne drv dc doc) (EvInsertOne dc doc) w = (r1, w1)"
    by (cases "call (insertOne drv dc doc) (EvInsertOne dc doc) w")
  note t = trace_call[OF c]
  show ?case
  proof (cases r1)
    case (Inr u)
    with c "1.prems" have "r = Inr ()" "w' = w1" by simp_all
    with t Inr "1.prems"(2) show ?thesis
      by (intro exI[of _ attempt] exI[of _ "[]"]) simp
  next
    case (Inl error)
    show ?thesis
    proof (cases "\<not> isNetworkError error \<or> attempt \<ge> MAX_RETRIES")
      case True
      with c Inl "1.prems" have "r = Inl error" "w' = w1" by auto
      with t Inl True "1.prems"(2) show ?thesis
        by (intro exI[of _ attempt] exI[of _ "[]"]) auto
    next
      case False
      with c Inl "1.prems"
      have rec: "insertIndividually_doc drv dc doc (attempt + 1)
                   (emit (EvSetTimeout (delay attempt)) w1) = (r, w')"
        by simp
      from False have lt: "attempt + 1 \<le> MAX_RETRIES" by simp
      from "1.IH"[OF "1.prems"(2) c[symmetric] Inl False rec lt]
      obtain n errors where h: "attempt + 1 \<le> n" "n \<le> MAX_RETRIES"
          "length errors = n - (attempt + 1)" "\<forall>e\<in>set errors. isNetworkError e"
          "single_inserts (trace w') =
             single_inserts (trace (emit (EvSetTimeout (delay attempt)) w1))
               @ map (\<lambda>e. (dc, doc, Inl e)) errors @ [(dc, doc, r)]"
          "timers (trace w') =
             timers (trace (emit (EvSetTimeout (delay attempt)) w1)) @ map delay [attempt + 1..<n]"
          "bulk_inserts (trace w') = bulk_inserts (trace (emit (EvSetTimeout (delay attempt)) w1))"
          "\<forall>e. r = Inl e \<longrightarrow> \<not> isNetworkError e \<or> n = MAX_RETRIES"
        by blast
      from h t Inl False show ?thesis
        by (intro exI[of _ n] exI[of _ "error # errors"]) (auto simp: upt_conv_Cons)
    qed
  qed
qed

lemma insertIndividually_doc_bulk_inserts:
  "insertIndividually_doc drv dc doc attempt w = (r, w') \<Longrightarrow>
     bulk_inserts (trace w') = bulk_inserts (trace w)"
proof (induction drv dc doc attempt w rule: insertIndividually_doc.induct)
  case (1 drv dc doc attempt w)
  obtain r1 w1 where c: "call (insertOne drv dc doc) (EvInsertOne dc doc) w = (r1, w1)"
    by (cases "call (insertOne drv dc doc) (EvInsertOne dc doc) w")
  note t = trace_call[OF c]
  show ?case
  proof (cases "attempt \<le> MAX_RETRIES")
    case False
    with "1.prems" show ?thesis by simp
  next
    case le: True
    show ?thesis
    proof (cases r1)
      case (Inr u)
      with c le "1.prems" t show ?thesis by auto
    next
      case (Inl error)
      show ?thesis
      proof (cases "\<not> isNetworkError error \<or> attempt \<ge> MAX_RETRIES")
        case True
        with c Inl le "1.prems" t show ?thesis by auto
      next
        case False
        with c Inl le "1.prems"
        have rec: "insertIndividually_doc drv dc doc (attempt + 1)
                     (emit (EvSetTimeout (delay attempt)) w1) = (r, w')"
          by simp
        from "1.IH"[OF le c[symmetric] Inl False rec] t show ?thesis by simp
      qed
    qed
  qed
qed

lemma insertIndividually_bulk_inserts:
  "insertIndividually drv dc documents w = (r, w') \<Longrightarrow>
     bulk_inserts (trace w') = bulk_inserts (trace w)"
proof (induction documents arbitrary: w)
  case Nil
  then show ?case by simp
next
  case (Cons doc documents)
  obtain r1 w1 where c: "insertIndividually_doc drv dc doc 1 w = (r1, w1)"
    by (cases "insertIndividually_doc drv dc doc 1 w")
  from insertIndividually_doc_bulk_inserts[OF c] Cons c show ?case
    by (cases r1) auto
qed

lemma insertIndividually_single_inserts_bound:
  "insertIndividually drv dc documents w = (r, w') \<Longrightarrow>
     length (single_inserts (trace w')) \<le>
       length (single_inserts (trace w)) + MAX_RETRIES * length documents"
proof (induction documents arbitrary: w)
  case Nil
  then show ?case by simp
next
  case (Cons doc documents)
  obtain r1 w1 where c: "insertIndividually_doc drv dc doc 1 w = (r1, w1)"
    by (cases "insertIndividually_doc drv dc doc 1 w")
  from insertIndividually_doc_attempts[OF c]
  have b: "length (single_inserts (trace w1)) \<le> length (single_inserts (trace w)) + MAX_RETRIES"
    by (auto simp: MAX_RETRIES_def)
  show ?case
  proof (cases r1)
    case (Inl e)
    with c Cons.prems b show ?thesis by auto
  next
    case (Inr u)
    with c Cons.prems have "insertIndividually drv dc documents w1 = (r, w')" by simp
    from Cons.IH[OF this] b show ?thesis by simp
  qed
qed

declare insertBatch.simps [simp del] bulk_phase.simps [simp del]
  insertIndividually_doc.simps [simp del]





lemma isNetworkError_ETIMEDOUT: "isNetworkError ETIMEDOUT"
  by code_simp

lemma isNetworkError_DUPLICATE_KEY: "\<not> isNetworkError DUPLICATE_KEY"
  by code_simp

lemma isNetworkError_SOCKET_CLOSED: "isNetworkError SOCKET_CLOSED"
  by code_simp

lemmas run_simps = insertBatch.simps bulk_phase.simps insertIndividually_doc.simps start_def memory_driver_def mem_insert_def mem_update_def call_eq backoff_def
  emit_def isNetworkError_ETIMEDOUT isNetworkError_DUPLICATE_KEY isNetworkError_SOCKET_CLOSED
  MAX_RETRIES_def delay_def Let_def less_eq_bson_def less_bson_def

lemma delay_mono: "a \<le> b \<Longrightarrow> delay a \<le> delay b"
proof -
  assume "a \<le> b"
  then have "500 * a * a \<le> 500 * b * b"
    by (simp add: mult_le_mono)
  then show ?thesis
    by (simp add: delay_def min_le_iff_disj)
qed

lemma sorted_delays: "sorted (map delay [a..<n])"
  by (simp add: sorted_map sorted_wrt_iff_nth_less delay_mono)

lemma delay_capped: "delay k \<le> 20000"
  by (simp add: delay_def)

subsection \<open>Claims about the batch writer\<close>

text \<open>
  C10. \<^verbatim>\<open>insertBatch\<close> terminates on every input: it is a total function, defined by
  recursion on \<open>MAX_RETRIES - attempt\<close>. Started at \<open>attempt\<close>, it makes bulk inserts numbered
  \<open>attempt, ..., n\<close> with \<open>n \<le> MAX_RETRIES = 7\<close> (or the single one numbered \<open>attempt\<close> when
  \<open>attempt\<close> is already past the maximum), so at most 7 of them from \<open>attempt = 1\<close>; none of
  these attempts inserts a single document; then it either returns or runs
  \<^verbatim>\<open>insertIndividually\<close> once, which makes no further bulk insert and at most \<open>MAX_RETRIES\<close>
  single inserts for each document.
\<close>

theorem insertBatch_bounded:
  "\<exists>x n wm. bulk_phase drv dc documents attempt w = (x, n, wm) \<and>
     MAX_RETRIES = 7 \<and> attempt \<le> n \<and> (n \<le> MAX_RETRIES \<or> n = attempt) \<and>
     length (bulk_inserts (trace wm)) = length (bulk_inserts (trace w)) + (n - attempt + 1) \<and>
     single_inserts (trace wm) = single_inserts (trace w) \<and>
     insertBatch drv dc documents attempt w =
       (case x of None \<Rightarrow> (Inr (), wm) | Some error \<Rightarrow> insertIndividually drv dc documents wm) \<and>
     bulk_inserts (trace (snd (insertBatch drv dc documents attempt w))) = bulk_inserts (trace wm) \<and>
     length (single_inserts (trace (snd (insertBatch drv dc documents attempt w))))
       \<le> length (single_inserts (trace w)) + MAX_RETRIES * length documents"
proof -
  obtain x n wm where run: "bulk_phase drv dc documents attempt w = (x, n, wm)"
    by (metis prod_cases3)
  from bulk_phase_bulk_inserts[OF run]
  have len: "length (bulk_inserts (trace wm)) = length (bulk_inserts (trace w)) + (n - attempt + 1)"
    by auto
  have eq: "insertBatch drv dc documents attempt w =
       (case x of None \<Rightarrow> (Inr (), wm) | Some error \<Rightarrow> insertIndividually drv dc documents wm)"
    by (simp add: insertBatch_bulk_phase run split: option.splits)
  have single: "single_inserts (trace wm) = single_inserts (trace w)"
    by (rule bulk_phase_single_inserts[OF run])
  have after: "bulk_inserts (trace (snd (insertBatch drv dc documents attempt w))) = bulk_inserts (trace wm)
     \<and> length (single_inserts (trace (snd (insertBatch drv dc documents attempt w))))
       \<le> length (single_inserts (trace w)) + MAX_RETRIES * length documents"
  proof (cases x)
    case None
    with eq single show ?thesis by simp
  next
    case (Some error)
    obtain r w' where f: "insertIndividually drv dc documents wm = (r, w')"
      by (cases "insertIndividually drv dc documents wm")
    from insertIndividually_bulk_inserts[OF f] insertIndividually_single_inserts_bound[OF f]
      Some eq f single
    show ?thesis by simp
  qed
  from run bulk_phase_range[OF run] len single eq after show ?thesis
    by (simp add: MAX_RETRIES_def)
qed

theorem insertBatch_bounded_witness:
  "bulk_phase memory_driver (''shop'', ''orders'') orders 1
      (start [] (replicate 8 (Some ETIMEDOUT) :: thrown option list))
     = (Some ETIMEDOUT, 7, snd (snd (bulk_phase memory_driver (''shop'', ''orders'') orders 1
      (start [] (replicate 8 (Some ETIMEDOUT))))))
   \<and> length (bulk_inserts (trace (snd (insertBatch memory_driver (''shop'', ''orders'') orders 1
      (start [] (replicate 8 (Some ETIMEDOUT))))))) = 7
   \<and> fst (insertBatch memory_driver (''shop'', ''orders'') orders 1
      (start [] (replicate 8 (Some ETIMEDOUT)))) = Inr ()"
proof -
  have r: "replicate 8 (Some ETIMEDOUT) = [Some ETIMEDOUT, Some ETIMEDOUT, Some ETIMEDOUT,
     Some ETIMEDOUT, Some ETIMEDOUT, Some ETIMEDOUT, Some ETIMEDOUT, Some ETIMEDOUT]"
    by (simp add: numeral_eq_Suc)
  have e: "fst (bulk_phase memory_driver (''shop'', ''orders'') orders 1
      (start [] (replicate 8 (Some ETIMEDOUT) :: thrown option list))) = Some ETIMEDOUT"
     "fst (snd (bulk_phase memory_driver (''shop'', ''orders'') orders 1
      (start [] (replicate 8 (Some ETIMEDOUT) :: thrown option list)))) = 7"
     "fst (insertBatch memory_driver (''shop'', ''orders'') orders 1
      (start [] (replicate 8 (Some ETIMEDOUT)))) = Inr ()"
    unfolding r by (simp_all add: run_simps orders_def)
  from insertBatch_bounded[of memory_driver "(''shop'', ''orders'')" orders 1
      "start [] (replicate 8 (Some ETIMEDOUT))"] e
  show ?thesis
    by (auto simp: start_def)
qed


text \<open>
  C3. For a batch written from attempt 1, the timers set between the bulk attempts are
  \<open>delay 1, ..., delay (n - 1)\<close>, where \<open>n \<le> 7\<close> is the number of bulk attempts made and
  \<open>delay k = min 20000 (500 * k\<^sup>2)\<close> milliseconds is the delay before the \<open>k\<close>-th retry. The
  sequence is non-decreasing and never exceeds 20000. The attempts stop on a successful
  insert, at attempt 7, or on an error that is not a network error; so, when every bulk
  failure is a network error, they stop on success or at the maximum attempt count.
\<close>

theorem batch_retry_delays:
  assumes run: "bulk_phase drv dc documents 1 w = (x, n, wm)"
  shows "insertBatch drv dc documents 1 w =
       (case x of None \<Rightarrow> (Inr (), wm) | Some error \<Rightarrow> insertIndividually drv dc documents wm) \<and>
     timers (trace wm) = timers (trace w) @ map delay [1..<n] \<and>
     (\<forall>k. delay k = min 20000 (500 * k\<^sup>2)) \<and>
     sorted (map delay [1..<n]) \<and>
     (\<forall>d\<in>set (map delay [1..<n]). d \<le> 20000) \<and>
     1 \<le> n \<and> n \<le> 7 \<and>
     length (bulk_inserts (trace wm)) = length (bulk_inserts (trace w)) + n \<and>
     (x = None \<or> n = 7 \<or> (\<exists>error. x = Some error \<and> \<not> isNetworkError error)) \<and>
     ((\<forall>error. x = Some error \<longrightarrow> isNetworkError error) \<longrightarrow> x = None \<or> n = 7)"
proof -
  have eq: "insertBatch drv dc documents 1 w =
       (case x of None \<Rightarrow> (Inr (), wm) | Some error \<Rightarrow> insertIndividually drv dc documents wm)"
    by (cases x) (simp_all only: insertBatch_bulk_phase run prod.case option.case)
  from bulk_phase_range[OF run] have range: "1 \<le> n" "n \<le> 7"
    by (auto simp: MAX_RETRIES_def)
  from bulk_phase_bulk_inserts[OF run] range
  have len: "length (bulk_inserts (trace wm)) = length (bulk_inserts (trace w)) + n"
    by auto
  have stop: "x = None \<or> n = 7 \<or> (\<exists>error. x = Some error \<and> \<not> isNetworkError error)"
  proof (cases x)
    case None
    then show ?thesis by simp
  next
    case (Some error)
    with bulk_phase_stop[of drv dc documents 1 w error n wm] run range show ?thesis
      by (auto simp: MAX_RETRIES_def)
  qed
  have formula: "\<forall>k. delay k = min 20000 (500 * k\<^sup>2)"
    by (simp add: delay_def power2_eq_square mult.assoc)
  have timers: "timers (trace wm) = timers (trace w) @ map delay [1..<n]"
    using bulk_phase_timers[OF run] by simp
  have capped: "\<forall>d\<in>set (map delay [1..<n]). d \<le> 20000"
    by (simp add: delay_capped)
  from stop have stop': "(\<forall>error. x = Some error \<longrightarrow> isNetworkError error) \<longrightarrow> x = None \<or> n = 7"
    by blast
  from eq timers formula sorted_delays[of 1 n] capped range len stop stop'
  show ?thesis
    by (intro conjI)
qed

theorem batch_retry_delays_witness:
  "timers (trace (snd (snd (bulk_phase memory_driver (''shop'', ''orders'') orders 1
      (start [] (replicate 8 (Some ETIMEDOUT) :: thrown option list))))))
     = [500, 2000, 4500, 8000, 12500, 18000]
   \<and> fst (snd (bulk_phase memory_driver (''shop'', ''orders'') orders 1
      (start [] (replicate 8 (Some ETIMEDOUT) :: thrown option list)))) = 7"
proof -
  define W :: "(bson memory, bson) world" where "W = start [] (replicate 8 (Some ETIMEDOUT))"
  have r: "replicate 8 (Some ETIMEDOUT) = [Some ETIMEDOUT, Some ETIMEDOUT, Some ETIMEDOUT,
     Some ETIMEDOUT, Some ETIMEDOUT, Some ETIMEDOUT, Some ETIMEDOUT, Some ETIMEDOUT]"
    by (simp add: numeral_eq_Suc)
  have e: "fst (bulk_phase memory_driver (''shop'', ''orders'') orders 1 W) = Some ETIMEDOUT"
     "fst (snd (bulk_phase memory_driver (''shop'', ''orders'') orders 1 W)) = 7"
    unfolding W_def r by (simp_all add: run_simps)
  then have run: "bulk_phase memory_driver (''shop'', ''orders'') orders 1 W =
     (Some ETIMEDOUT, 7, snd (snd (bulk_phase memory_driver (''shop'', ''orders'') orders 1 W)))"
    by (simp add: prod_eq_iff)
  have u: "map delay [1..<7] = [500, 2000, 4500, 8000, 12500, 18000]"
    by (simp add: upt_conv_Cons delay_def)
  have t: "timers (trace W) = []"
    by (simp add: W_def start_def)
  from batch_retry_delays[OF run] have
    "timers (trace (snd (snd (bulk_phase memory_driver (''shop'', ''orders'') orders 1 W))))
       = timers (trace W) @ map delay [1..<7]"
    by (rule conjunct1[OF conjunct2])
  with u t e(2) show ?thesis
    unfolding W_def by simp
qed










subsection \<open>Runs as sequences of recorded events\<close>

lemma replay_simps [simp]:
  "replay drv [] s = s"
  "replay drv (e # evs) s = replay drv evs (exec drv e s)"
  "replay drv (xs @ ys) s = replay drv ys (replay drv xs s)"
  by (simp_all add: replay_def)

lemma steps_refl: "steps drv allowed w w"
  by (simp add: steps_def)

lemma steps_trans: "steps drv allowed w w1 \<Longrightarrow> steps drv allowed w1 w2 \<Longrightarrow> steps drv allowed w w2"
  unfolding steps_def
proof -
  assume "\<exists>evs. trace w1 = trace w @ evs \<and> dest w1 = replay drv evs (dest w) \<and> (\<forall>e\<in>set evs. allowed e)"
    and "\<exists>evs. trace w2 = trace w1 @ evs \<and> dest w2 = replay drv evs (dest w1) \<and> (\<forall>e\<in>set evs. allowed e)"
  then obtain e1 e2 where
    "trace w1 = trace w @ e1" "dest w1 = replay drv e1 (dest w)" "\<forall>e\<in>set e1. allowed e"
    "trace w2 = trace w1 @ e2" "dest w2 = replay drv e2 (dest w1)" "\<forall>e\<in>set e2. allowed e"
    by blast
  then show "\<exists>evs. trace w2 = trace w @ evs \<and> dest w2 = replay drv evs (dest w) \<and> (\<forall>e\<in>set evs. allowed e)"
    by (intro exI[of _ "e1 @ e2"]) auto
qed

lemma steps_mono: "steps drv P w w' \<Longrightarrow> (\<And>e. P e \<Longrightarrow> Q e) \<Longrightarrow> steps drv Q w w'"
  unfolding steps_def by blast

lemma steps_emit: "allowed e \<Longrightarrow> exec drv e (dest w) = dest w \<Longrightarrow> steps drv allowed w (emit e w)"
  unfolding steps_def by (intro exI[of _ "[e]"]) simp

lemma steps_call:
  assumes "call operation ev w = (r, w')" and "allowed (ev r)"
    and "\<And>s. exec drv (ev r) s = snd (operation s)"
  shows "steps drv allowed w w'"
  using assms unfolding steps_def by (intro exI[of _ "[ev r]"]) (auto simp: call_eq)


lemma backoff_steps: "steps drv (writer_event dc) w (backoff drv dc error attempt w)"
proof -
  define w1 where "w1 = emit (EvConsole (WarnNetworkIssue error (delay attempt) (attempt + 1))) w"
  define w2 where "w2 = emit (EvSetTimeout (delay attempt)) w1"
  obtain p w3 where c: "call (ping drv (fst dc)) (EvPing (fst dc)) w2 = (p, w3)"
    by (cases "call (ping drv (fst dc)) (EvPing (fst dc)) w2")
  have s1: "steps drv (writer_event dc) w w1"
    unfolding w1_def by (rule steps_emit) simp_all
  have s2: "steps drv (writer_event dc) w1 w2"
    unfolding w2_def by (rule steps_emit) simp_all
  have s3: "steps drv (writer_event dc) w2 w3"
    using c by (rule steps_call) simp_all
  note s123 = steps_trans[OF steps_trans[OF s1 s2] s3]
  show ?thesis
  proof (cases p)
    case (Inr u)
    with c have "backoff drv dc error attempt w = w3"
      by (simp add: backoff_def w1_def w2_def)
    with s123 show ?thesis by simp
  next
    case (Inl pingError)
    with c have e: "backoff drv dc error attempt w = emit (EvConsole (WarnPingErrored pingError)) w3"
      by (simp add: backoff_def w1_def w2_def)
    have "steps drv (writer_event dc) w3 (emit (EvConsole (WarnPingErrored pingError)) w3)"
      by (rule steps_emit) simp_all
    from steps_trans[OF s123 this] e show ?thesis by simp
  qed
qed

lemma insertMany_steps:
  "call (insertMany drv dc documents) (EvInsertMany dc documents) w = (r, w')
     \<Longrightarrow> steps drv (writer_event dc) w w'"
  by (rule steps_call) auto

lemma insertOne_steps:
  "call (insertOne drv dc doc) (EvInsertOne dc doc) w = (r, w')
     \<Longrightarrow> steps drv (writer_event dc) w w'"
  by (rule steps_call) auto

lemma bulk_phase_steps:
  "bulk_phase drv dc documents attempt w = (x, n, wm) \<Longrightarrow> steps drv (writer_event dc) w wm"
proof (induction rule: bulk_phase_rule)
  case (ok attempt w w1)
  from ok(1) show ?case by (rule insertMany_steps)
next
  case (stop attempt w error w1)
  from stop(1) show ?case by (rule insertMany_steps)
next
  case (retry attempt w error w1 x n wm)
  show ?case
    by (rule steps_trans[OF steps_trans[OF insertMany_steps[OF retry(1)] backoff_steps] retry(5)])
qed

lemma insertIndividually_doc_steps:
  "insertIndividually_doc drv dc doc attempt w = (r, w') \<Longrightarrow> steps drv (writer_event dc) w w'"
proof (induction drv dc doc attempt w rule: insertIndividually_doc.induct)
  case (1 drv dc doc attempt w)
  obtain r1 w1 where c: "call (insertOne drv dc doc) (EvInsertOne dc doc) w = (r1, w1)"
    by (cases "call (insertOne drv dc doc) (EvInsertOne dc doc) w")
  note t = insertOne_steps[OF c]
  show ?case
  proof (cases "attempt \<le> MAX_RETRIES")
    case False
    with "1.prems" show ?thesis by (simp add: insertIndividually_doc.simps steps_refl)
  next
    case le: True
    show ?thesis
    proof (cases r1)
      case (Inr u)
      with c le "1.prems" t show ?thesis by (auto simp: insertIndividually_doc.simps)
    next
      case (Inl error)
      show ?thesis
      proof (cases "\<not> isNetworkError error \<or> attempt \<ge> MAX_RETRIES")
        case True
        with c Inl le "1.prems" t show ?thesis by (auto simp: insertIndividually_doc.simps)
      next
        case False
        with c Inl le "1.prems"
        have rec: "insertIndividually_doc drv dc doc (attempt + 1)
                     (emit (EvSetTimeout (delay attempt)) w1) = (r, w')"
          by (simp add: insertIndividually_doc.simps)
        have "steps drv (writer_event dc) w1 (emit (EvSetTimeout (delay attempt)) w1)"
          by (rule steps_emit) simp_all
        from steps_trans[OF steps_trans[OF t this] "1.IH"[OF le c[symmetric] Inl False rec]]
        show ?thesis .
      qed
    qed
  qed
qed

lemma insertIndividually_steps:
  "insertIndividually drv dc documents w = (r, w') \<Longrightarrow> steps drv (writer_event dc) w w'"
proof (induction documents arbitrary: w)
  case Nil
  then show ?case by (simp add: steps_refl)
next
  case (Cons doc documents)
  obtain r1 w1 where c: "insertIndividually_doc drv dc doc 1 w = (r1, w1)"
    by (cases "insertIndividually_doc drv dc doc 1 w")
  note s1 = insertIndividually_doc_steps[OF c]
  show ?case
  proof (cases r1)
    case (Inl e)
    with c Cons.prems s1 show ?thesis by auto
  next
    case (Inr u)
    with c Cons.prems have "insertIndividually drv dc documents w1 = (r, w')" by simp
    from steps_trans[OF s1 Cons.IH[OF this]] show ?thesis .
  qed
qed

lemma insertBatch_steps:
  assumes "insertBatch drv dc documents attempt w = (r, w')"
  shows "steps drv (writer_event dc) w w'"
proof -
  obtain x n wm where run: "bulk_phase drv dc documents attempt w = (x, n, wm)"
    by (metis prod_cases3)
  note s1 = bulk_phase_steps[OF run]
  have eq: "insertBatch drv dc documents attempt w =
       (case x of None \<Rightarrow> (Inr (), wm) | Some error \<Rightarrow> insertIndividually drv dc documents wm)"
    by (cases x) (simp_all only: insertBatch_bulk_phase run prod.case option.case)
  show ?thesis
  proof (cases x)
    case None
    with eq assms s1 show ?thesis by auto
  next
    case (Some error)
    with eq assms have "insertIndividually drv dc documents wm = (r, w')" by simp
    from steps_trans[OF s1 insertIndividually_steps[OF this]] show ?thesis .
  qed
qed

lemma writer_event_touches: "writer_event dc e \<Longrightarrow> touches t e \<Longrightarrow> dc = t"
  by (cases e) auto
lemma pages_read_append [simp]: "pages_read (xs @ ys) = pages_read xs @ pages_read ys"
  by (simp add: pages_read_def)

lemma pages_read_simps [simp]:
  "pages_read [] = []" "pages_read (e # es) = find_of e @ pages_read es"
  by (simp_all add: pages_read_def)

lemma writer_events_no_pages: "\<forall>e\<in>set evs. writer_event dc e \<Longrightarrow> pages_read evs = []"
proof (induction evs)
  case Nil
  then show ?case by simp
next
  case (Cons e evs)
  then show ?case by (cases e) auto
qed

lemma insertBatch_pages_read:
  "insertBatch drv dc documents attempt w = (r, w') \<Longrightarrow>
     pages_read (trace w') = pages_read (trace w)"
  using insertBatch_steps[of drv dc documents attempt w r w'] writer_events_no_pages
  unfolding steps_def by fastforce


lemma sorted_le_last:
  fixes ys :: "'b::linorder list"
  shows "sorted ys \<Longrightarrow> y \<in> set ys \<Longrightarrow> y \<le> last ys"
  by (induction ys) auto

lemma filter_after_last:
  fixes g :: "'a \<Rightarrow> 'b::linorder"
  assumes srt: "sorted (map g xs)" and dst: "distinct (map g xs)" and ne: "take n xs \<noteq> []"
  shows "filter (\<lambda>x. g (last (take n xs)) < g x) xs = drop n xs"
proof -
  let ?A = "take n xs" and ?B = "drop n xs"
  have xs: "xs = ?A @ ?B" by simp
  from srt have "sorted (map g ?A @ map g ?B)"
    by (metis append_take_drop_id map_append)
  then have sA: "sorted (map g ?A)" and AB: "\<forall>a\<in>set ?A. \<forall>b\<in>set ?B. g a \<le> g b"
    by (auto simp: sorted_append)
  from dst have "distinct (map g ?A @ map g ?B)"
    by (metis append_take_drop_id map_append)
  then have neq: "\<forall>a\<in>set ?A. \<forall>b\<in>set ?B. g a \<noteq> g b"
    by auto
  from ne have lastA: "last ?A \<in> set ?A" by simp
  have below: "\<forall>a\<in>set ?A. \<not> g (last ?A) < g a"
  proof
    fix a assume "a \<in> set ?A"
    then have "g a \<in> set (map g ?A)" by simp
    from sorted_le_last[OF sA this] ne have "g a \<le> g (last ?A)"
      by (simp add: last_map)
    then show "\<not> g (last ?A) < g a" by simp
  qed
  have above: "\<forall>b\<in>set ?B. g (last ?A) < g b"
    using AB neq lastA by (meson le_neq_trans)
  have fA: "filter (\<lambda>x. g (last ?A) < g x) ?A = []"
    using below by (simp add: filter_empty_conv)
  have fB: "filter (\<lambda>x. g (last ?A) < g x) ?B = ?B"
    using above by (simp add: filter_id_conv)
  have "filter (\<lambda>x. g (last ?A) < g x) xs
          = filter (\<lambda>x. g (last ?A) < g x) ?A @ filter (\<lambda>x. g (last ?A) < g x) ?B"
    by (metis append_take_drop_id filter_append)
  with fA fB show ?thesis by simp
qed

lemma find_filter_same_type:
  "doc_id d = Some k' \<Longrightarrow> type_order k' = type_order k \<Longrightarrow>
     find_filter (Some k) d = (Some k < doc_id d)"
  by (simp add: find_filter_def)

lemma distinct_map_sort_key:
  "distinct (map f (sort_key f xs)) = distinct (map f xs)"
proof -
  have "mset (map f (sort_key f xs)) = mset (map f xs)" by simp
  then show ?thesis by (rule mset_eq_imp_distinct_iff)
qed

lemma cloneCollection_loop_pages:
  fixes drv :: "('s, bson) driver"
  assumes ids: "\<forall>d\<in>set docs. doc_id d \<noteq> None" and uniq: "distinct (map doc_id docs)"
    and one_type: "\<forall>d\<in>set docs. \<forall>d'\<in>set docs.
      map_option type_order (doc_id d) = map_option type_order (doc_id d')"
  shows "\<exists>r w' ps. cloneCollection_loop drv docs dc lastId w = Some (r, w') \<and>
      pages_read (trace w') = pages_read (trace w) @ ps \<and> pages_in_order lastId ps \<and>
      (r = Inr () \<longrightarrow>
         concat (map snd ps) = sort_key doc_id (filter (find_filter lastId) docs))"
proof (induction "length (filter (find_filter lastId) docs)" arbitrary: lastId w rule: less_induct)
  case less
  define T where "T = sort_key doc_id (filter (find_filter lastId) docs)"
  define page where "page = find_page docs lastId"
  define w0 where "w0 = emit (EvFind dc lastId page) w"
  have page: "page = take PAGE_SIZE T"
    by (simp add: page_def find_page_def T_def)
  have sT: "sorted (map doc_id T)" by (simp add: T_def)
  have dT: "distinct (map doc_id T)"
    by (simp add: T_def distinct_map_sort_key distinct_map_filter uniq)
  have setT: "set T = {d \<in> set docs. find_filter lastId d}" by (auto simp: T_def)
  have len: "length page \<le> PAGE_SIZE" by (simp add: page)
  have "sorted (take PAGE_SIZE (map doc_id T))"
    using sT by (rule sorted_wrt_take)
  then have spage: "sorted (map doc_id page)"
    by (simp add: page take_map)
  have fpage: "\<forall>d\<in>set page. find_filter lastId d"
    using setT by (auto simp: page dest: in_set_takeD)
  have unfold: "cloneCollection_loop drv docs dc lastId w =
     (if page = [] then Some (Inr (), w0)
      else (case insertBatch drv dc page 1 w0 of
              (Inl error, w1) \<Rightarrow> Some (Inl error, w1)
            | (Inr u, w1) \<Rightarrow>
                cloneCollection_loop drv docs dc
                  (case doc_id (last page) of Some k \<Rightarrow> Some k | None \<Rightarrow> lastId)
                  (snd (call (ping drv (fst dc)) (EvPing (fst dc)) w1))))"
    unfolding page_def w0_def by (subst cloneCollection_loop.simps) (simp add: Let_def)
  show ?case
  proof (cases "page = []")
    case True
    then have "T = []" by (simp add: page PAGE_SIZE_def)
    with True unfold len show ?thesis
      by (intro exI[of _ "Inr ()"] exI[of _ w0] exI[of _ "[(lastId, page)]"])
         (simp add: w0_def T_def)
  next
    case False
    obtain r1 w1 where b: "insertBatch drv dc page 1 w0 = (r1, w1)"
      by (cases "insertBatch drv dc page 1 w0")
    have p1: "pages_read (trace w1) = pages_read (trace w) @ [(lastId, page)]"
      using insertBatch_pages_read[OF b] by (simp add: w0_def)
    show ?thesis
    proof (cases r1)
      case (Inl error)
      with b unfold False have "cloneCollection_loop drv docs dc lastId w = Some (Inl error, w1)"
        by simp
      with p1 len spage fpage False show ?thesis
        by (intro exI[of _ "Inl error"] exI[of _ w1] exI[of _ "[(lastId, page)]"]) simp
    next
      case (Inr u)
      from False have lastin: "last page \<in> set page" by simp
      then have indocs: "last page \<in> set docs" using setT by (auto simp: page dest: in_set_takeD)
      with ids obtain k where k: "doc_id (last page) = Some k" by auto
      have same: "find_filter (Some k) d = (Some k < doc_id d)" if "d \<in> set docs" for d
      proof -
        from ids that obtain k' where k': "doc_id d = Some k'" by auto
        from one_type that indocs k k' have "type_order k' = type_order k" by fastforce
        with k' show ?thesis by (rule find_filter_same_type)
      qed
      define w2 where "w2 = snd (call (ping drv (fst dc)) (EvPing (fst dc)) w1)"
      have p2: "pages_read (trace w2) = pages_read (trace w) @ [(lastId, page)]"
        using p1 by (simp add: w2_def call_eq)
      from b Inr unfold False k
      have step: "cloneCollection_loop drv docs dc lastId w =
                    cloneCollection_loop drv docs dc (Some k) w2"
        by (simp add: w2_def)
      have imp: "find_filter (Some k) d \<Longrightarrow> find_filter lastId d" for d
      proof (cases lastId)
        case None
        then show ?thesis by (simp add: find_filter_def)
      next
        case (Some l)
        assume a: "find_filter (Some k) d"
        from fpage lastin Some k have "type_order k = type_order l \<and> l < k"
          by (auto simp: find_filter_def)
        with a Some show ?thesis
          by (cases "doc_id d") (auto simp: find_filter_def)
      qed
      have ff: "filter (find_filter (Some k)) docs
                  = filter (find_filter (Some k)) (filter (find_filter lastId) docs)"
        using imp by (auto intro: filter_cong)
      have rest: "sort_key doc_id (filter (find_filter (Some k)) docs) = drop PAGE_SIZE T"
      proof -
        have "sort_key doc_id (filter (find_filter (Some k)) docs)
                = filter (find_filter (Some k)) T"
          by (subst ff) (simp add: T_def filter_sort)
        also have "\<dots> = filter (\<lambda>d. doc_id (last (take PAGE_SIZE T)) < doc_id d) T"
          using k same setT by (auto simp: page intro!: filter_cong)
        also have "\<dots> = drop PAGE_SIZE T"
          using filter_after_last[OF sT dT] False by (simp add: page)
        finally show ?thesis .
      qed
      have "\<not> find_filter (Some k) (last page)"
        using k by (simp add: find_filter_def)
      moreover have "last page \<in> set (filter (find_filter lastId) docs)"
        using lastin setT by (auto simp: page dest: in_set_takeD)
      ultimately have "length (filter (find_filter (Some k)) (filter (find_filter lastId) docs))
                         < length (filter (find_filter lastId) docs)"
        by (rule length_filter_less[rotated])
      with ff have "length (filter (find_filter (Some k)) docs)
                      < length (filter (find_filter lastId) docs)"
        by simp
      from less[OF this, of w2] obtain r w' ps where
        ih: "cloneCollection_loop drv docs dc (Some k) w2 = Some (r, w')"
            "pages_read (trace w') = pages_read (trace w2) @ ps"
            "pages_in_order (Some k) ps"
            "r = Inr () \<longrightarrow>
               concat (map snd ps) = sort_key doc_id (filter (find_filter (Some k)) docs)"
        by blast
      have "r = Inr () \<longrightarrow> concat (map snd ((lastId, page) # ps)) = T"
        using ih(4) rest by (simp add: page)
      with ih step p2 len spage fpage False k show ?thesis
        by (intro exI[of _ r] exI[of _ w'] exI[of _ "(lastId, page) # ps"]) (simp add: T_def)
    qed
  qed
qed


subsection \<open>Pagination over keys of one type\<close>

text \<open>
  Let every document of the source collection carry an \<^verbatim>\<open>_id\<close>, let these keys be pairwise
  different (a collection identifies its documents by \<^verbatim>\<open>_id\<close>) and all of one BSON type. Then
  the pagination loop of \<^verbatim>\<open>cloneCollection\<close> returns, whatever the destination does. The
  pages it reads satisfy the reader's contract: the first is asked for with no last-seen
  key, each next one with the \<^verbatim>\<open>_id\<close> of the last document of the page before; each holds at
  most \<open>PAGE_SIZE\<close> documents, ascending, with keys strictly greater than that last-seen key.
  When the run completes (no write error aborted it), the pages put end to end are the
  collection sorted by \<^verbatim>\<open>_id\<close>: every document exactly once, in ascending order.
\<close>

theorem pagination_complete_one_type:
  fixes drv :: "('s, bson) driver"
  assumes ids: "\<forall>d\<in>set docs. doc_id d \<noteq> None" and uniq: "distinct (map doc_id docs)"
    and one_type: "\<forall>d\<in>set docs. \<forall>d'\<in>set docs.
      map_option type_order (doc_id d) = map_option type_order (doc_id d')"
  shows "\<exists>r w' ps. cloneCollection drv docs dc w = Some (r, w') \<and>
      pages_read (trace w') = pages_read (trace w) @ ps \<and>
      pages_in_order None ps \<and>
      (r = Inr () \<longrightarrow>
         concat (map snd ps) = sort_key doc_id docs \<and>
         mset (concat (map snd ps)) = mset docs \<and>
         distinct (concat (map snd ps)) \<and>
         sorted (map doc_id (concat (map snd ps))))"
proof -
  from cloneCollection_loop_pages[OF ids uniq one_type, of drv dc None w] obtain r w' ps where
    h: "cloneCollection_loop drv docs dc None w = Some (r, w')"
       "pages_read (trace w') = pages_read (trace w) @ ps"
       "pages_in_order None ps"
       "r = Inr () \<longrightarrow> concat (map snd ps) = sort_key doc_id (filter (find_filter None) docs)"
    by blast
  have all: "filter (find_filter None) docs = docs"
    by (simp add: find_filter_def)
  from uniq have d: "distinct docs" by (simp add: distinct_map)
  from h all d show ?thesis
    by (intro exI[of _ r] exI[of _ w'] exI[of _ ps]) (simp add: cloneCollection_def)
qed

lemmas reader_simps = cloneCollection_def cloneCollection_loop.simps find_page_def
  find_filter_def PAGE_SIZE_def run_simps upt_conv_Cons

lemma orders25_eval:
  "map (\<lambda>(l, p). (l, map doc_id p))
     (pages_read (trace (snd (the (cloneCollection memory_driver orders25 (''shop'', ''orders'')
        (start [] []))))))
   = [(None, map (\<lambda>i. Some (BNumber i)) [1, 2, 3, 4, 5, 6, 7, 8, 9, 10]),
      (Some (BNumber 10), map (\<lambda>i. Some (BNumber i)) [11, 12, 13, 14, 15, 16, 17, 18, 19, 20]),
      (Some (BNumber 20), map (\<lambda>i. Some (BNumber i)) [21, 22, 23, 24, 25]),
      (Some (BNumber 25), [])]"
  "map_option fst (cloneCollection memory_driver orders25 (''shop'', ''orders'') (start [] []))
     = Some (Inr ())"
  by (simp_all add: reader_simps orders25_def)

theorem pagination_complete_one_type_witness:
  "list_all (\<lambda>d. doc_id d \<noteq> None) orders25 \<and> distinct (map doc_id orders25) \<and>
   list_all (\<lambda>d. map_option type_order (doc_id d) = Some 1) orders25 \<and>
   map_option fst (cloneCollection memory_driver orders25 (''shop'', ''orders'') (start [] []))
     = Some (Inr ()) \<and>
   map (\<lambda>(l, p). (l, map doc_id p))
     (pages_read (trace (snd (the (cloneCollection memory_driver orders25 (''shop'', ''orders'')
        (start [] []))))))
     = [(None, map (\<lambda>i. Some (BNumber i)) [1, 2, 3, 4, 5, 6, 7, 8, 9, 10]),
        (Some (BNumber 10), map (\<lambda>i. Some (BNumber i)) [11, 12, 13, 14, 15, 16, 17, 18, 19, 20]),
        (Some (BNumber 20), map (\<lambda>i. Some (BNumber i)) [21, 22, 23, 24, 25]),
        (Some (BNumber 25), [])] \<and>
   pages_in_order None
     (pages_read (trace (snd (the (cloneCollection memory_driver orders25 (''shop'', ''orders'')
        (start [] [])))))) \<and>
   concat (map snd
     (pages_read (trace (snd (the (cloneCollection memory_driver orders25 (''shop'', ''orders'')
        (start [] [])))))))
     = sort_key doc_id orders25"
proof -
  define W :: "(bson memory, bson) world" where "W = start [] []"
  have ids: "\<forall>d\<in>set orders25. doc_id d \<noteq> None"
    by (simp add: orders25_def)
  have uniq: "distinct (map doc_id orders25)"
    by (simp add: orders25_def distinct_map comp_def inj_on_def)
  have numbers: "\<forall>d\<in>set orders25. map_option type_order (doc_id d) = Some 1"
    by (simp add: orders25_def)
  have one_type: "\<forall>d\<in>set orders25. \<forall>d'\<in>set orders25.
      map_option type_order (doc_id d) = map_option type_order (doc_id d')"
  proof (intro ballI)
    fix d d' assume "d \<in> set orders25" "d' \<in> set orders25"
    with numbers show "map_option type_order (doc_id d) = map_option type_order (doc_id d')"
      by (simp only:)
  qed
  from pagination_complete_one_type[OF ids uniq one_type, of memory_driver "(''shop'', ''orders'')" W]
  obtain r w' ps where
    h: "cloneCollection memory_driver orders25 (''shop'', ''orders'') W = Some (r, w')"
       "pages_read (trace w') = pages_read (trace W) @ ps"
       "pages_in_order None ps"
       "r = Inr () \<longrightarrow> concat (map snd ps) = sort_key doc_id orders25"
    by blast
  have t: "pages_read (trace W) = []" by (simp add: W_def start_def)
  from orders25_eval(2) h(1) have r: "r = Inr ()" by (simp add: W_def)
  from h t r have
    "pages_in_order None
       (pages_read (trace (snd (the (cloneCollection memory_driver orders25 (''shop'', ''orders'') W)))))"
    "concat (map snd
       (pages_read (trace (snd (the (cloneCollection memory_driver orders25 (''shop'', ''orders'') W))))))
     = sort_key doc_id orders25"
    by simp_all
  with ids uniq numbers orders25_eval show ?thesis
    unfolding W_def by (simp add: list_all_iff)
qed

subsection \<open>Claims about the paginated reader\<close>

text \<open>
  C1 does not hold of \<^verbatim>\<open>cloneCollection\<close>. The collection \<open>catalog\<close> has twelve documents, all
  with an \<^verbatim>\<open>_id\<close>, pairwise different: the numbers 1 to 10 and the strings "a" and "b"; it is
  listed in ascending order of \<^verbatim>\<open>_id\<close>. The first page holds the ten documents with a number.
  The second page is asked for with \<^verbatim>\<open>{ _id: { $gt: 10 } }\<close>, which matches numbers only, and is
  empty: the loop ends and the run reports success. The two documents with a string key were
  never read, and the destination holds ten documents of the twelve.
\<close>

theorem mixed_key_types_not_paginated:
  "list_all (\<lambda>d. doc_id d \<noteq> None) catalog \<and> distinct (map doc_id catalog) \<and>
   length catalog = 12 \<and> sorted (map doc_id catalog) \<and> sort_key doc_id catalog = catalog \<and>
   map_option fst (cloneCollection memory_driver catalog (''shop'', ''catalog'') (start [] []))
     = Some (Inr ()) \<and>
   pages_read (trace (snd (the (cloneCollection memory_driver catalog (''shop'', ''catalog'')
        (start [] [])))))
     = [(None, take 10 catalog), (Some (BNumber 10), [])] \<and>
   colls (dest (snd (the (cloneCollection memory_driver catalog (''shop'', ''catalog'')
        (start [] [])))))
     = [((''shop'', ''catalog''), (take 10 catalog, []))] \<and>
   drop 10 catalog = [Document (Some (BString ''a'')) [], Document (Some (BString ''b'')) []]"
  by (simp add: reader_simps catalog_def)
lemma cloneCollection_loop_steps:
  fixes drv :: "('s, bson) driver"
  assumes "cloneCollection_loop drv docs dc lastId w = Some y"
  shows "steps drv (\<lambda>e. touches t e \<longrightarrow> dc = t) w (snd y)"
proof (rule cloneCollection_loop.raw_induct
    [where P = "\<lambda>drv docs dc lastId w y. steps drv (\<lambda>e. touches t e \<longrightarrow> dc = t) w (snd y)",
     OF _ assms])
  fix loop :: "('s, bson) driver \<Rightarrow> bson document list \<Rightarrow> coll_ref \<Rightarrow> bson option \<Rightarrow> ('s, bson) world
     \<Rightarrow> (unit result \<times> ('s, bson) world) option"
  fix drv :: "('s, bson) driver" and docs dc lastId and w :: "('s, bson) world" and y
  assume 1: "\<And>drv docs dc lastId w y. loop drv docs dc lastId w = Some y \<Longrightarrow>
                steps drv (\<lambda>e. touches t e \<longrightarrow> dc = t) w (snd y)"
     "(let page = find_page docs lastId; w0 = emit (EvFind dc lastId page) w
       in if page = [] then Some (Inr (), w0)
          else case insertBatch drv dc page 1 w0 of
               (Inl error, w1) \<Rightarrow> Some (Inl error, w1)
               | (Inr u, w1) \<Rightarrow>
                   loop drv docs dc
                    (case doc_id (last page) of None \<Rightarrow> lastId | Some k \<Rightarrow> Some k)
                    (snd (call (ping drv (fst dc)) (EvPing (fst dc)) w1))) = Some y"
  define page where "page = find_page docs lastId"
  define w0 where "w0 = emit (EvFind dc lastId page) w"
  have s0: "steps drv (\<lambda>e. touches t e \<longrightarrow> dc = t) w w0"
    unfolding w0_def by (rule steps_emit) simp_all
  show "steps drv (\<lambda>e. touches t e \<longrightarrow> dc = t) w (snd y)"
  proof (cases "page = []")
    case True
    with 1(2) have "y = (Inr (), w0)" by (simp add: Let_def page_def w0_def)
    with s0 show "steps drv (\<lambda>e. touches t e \<longrightarrow> dc = t) w (snd y)" by simp
  next
    case False
    obtain r1 w1 where b: "insertBatch drv dc page 1 w0 = (r1, w1)"
      by (cases "insertBatch drv dc page 1 w0")
    from insertBatch_steps[OF b] have s1: "steps drv (\<lambda>e. touches t e \<longrightarrow> dc = t) w0 w1"
      by (rule steps_mono) (auto dest: writer_event_touches)
    show "steps drv (\<lambda>e. touches t e \<longrightarrow> dc = t) w (snd y)"
    proof (cases r1)
      case (Inl error)
      with 1(2) False b have "y = (Inl error, w1)"
        by (simp add: Let_def page_def[symmetric] w0_def[symmetric])
      with steps_trans[OF s0 s1] show ?thesis by simp
    next
      case (Inr u)
      define w2 where "w2 = snd (call (ping drv (fst dc)) (EvPing (fst dc)) w1)"
      have "call (ping drv (fst dc)) (EvPing (fst dc)) w1
              = (fst (call (ping drv (fst dc)) (EvPing (fst dc)) w1), w2)"
        by (simp add: w2_def)
      then have s2: "steps drv (\<lambda>e. touches t e \<longrightarrow> dc = t) w1 w2"
        by (rule steps_call) auto
      from 1(2) False b Inr
      have "loop drv docs dc (case doc_id (last page) of Some k \<Rightarrow> Some k | None \<Rightarrow> lastId) w2
              = Some y"
        by (simp add: Let_def page_def[symmetric] w0_def[symmetric] w2_def)
      from steps_trans[OF steps_trans[OF steps_trans[OF s0 s1] s2] 1(1)[OF this]]
      show ?thesis .
    qed
  qed
qed

lemma syncIndexes_steps:
  "steps drv (\<lambda>e. touches t e \<longrightarrow> dc = t) w (syncIndexes drv indexes dc w)"
proof (induction indexes arbitrary: w)
  case Nil
  then show ?case by (simp add: steps_refl)
next
  case (Cons index indexes)
  show ?case
  proof (cases "index_name index = ''_id_''")
    case True
    with Cons show ?thesis by simp
  next
    case False
    obtain r1 w1 where c: "call (createIndex drv dc (index_key index) (buildIndexOptions index))
                   (EvCreateIndex dc (index_key index) (buildIndexOptions index)) w = (r1, w1)"
      by (cases "call (createIndex drv dc (index_key index) (buildIndexOptions index))
                   (EvCreateIndex dc (index_key index) (buildIndexOptions index)) w")
    then have s1: "steps drv (\<lambda>e. touches t e \<longrightarrow> dc = t) w w1"
      by (rule steps_call) auto
    show ?thesis
    proof (cases r1)
      case (Inr u)
      with False c steps_trans[OF s1 Cons[of w1]] show ?thesis by simp
    next
      case (Inl error)
      have "steps drv (\<lambda>e. touches t e \<longrightarrow> dc = t) w1
              (emit (EvConsole (WarnCreateIndexFailed (index_name index) dc error)) w1)"
        by (rule steps_emit) simp_all
      from steps_trans[OF steps_trans[OF s1 this]
        Cons[of "emit (EvConsole (WarnCreateIndexFailed (index_name index) dc error)) w1"]]
        Inl False c
      show ?thesis by simp
    qed
  qed
qed


lemma create_steps:
  assumes "(case call (createCollection drv dc copts) (EvCreateCollection dc copts) w1 of
              (Inr u, w2) \<Rightarrow> (Inr (insert (snd dc) names1), w2)
            | (Inl error, w2) \<Rightarrow>
                (Inr (insert (snd dc) names1),
                 emit (EvConsole (WarnCreateCollectionFailed error)) w2)) = (r, w')"
  shows "steps drv (\<lambda>e. touches t e \<longrightarrow> dc = t) w1 w' \<and> r = Inr (insert (snd dc) names1)"
proof -
  obtain rc w2 where c: "call (createCollection drv dc copts) (EvCreateCollection dc copts) w1 = (rc, w2)"
    by (cases "call (createCollection drv dc copts) (EvCreateCollection dc copts) w1")
  then have s1: "steps drv (\<lambda>e. touches t e \<longrightarrow> dc = t) w1 w2"
    by (rule steps_call) auto
  show ?thesis
  proof (cases rc)
    case (Inr u)
    with c assms s1 show ?thesis by auto
  next
    case (Inl error)
    have "steps drv (\<lambda>e. touches t e \<longrightarrow> dc = t) w2
            (emit (EvConsole (WarnCreateCollectionFailed error)) w2)"
      by (rule steps_emit) simp_all
    from steps_trans[OF s1 this] c assms Inl show ?thesis by auto
  qed
qed

lemma prepareCollection_steps:
  assumes p: "prepareCollection drv dc opts names w = (r, w')"
  shows "steps drv (\<lambda>e. touches t e \<longrightarrow> dc = t) w w' \<and> (\<forall>names1. r = Inr names1 \<longrightarrow> names \<subseteq> names1)"
proof (cases "snd dc \<in> names")
  case False
  with p have "(case call (createCollection drv dc (map_option sanitizeOptions opts))
                       (EvCreateCollection dc (map_option sanitizeOptions opts)) w of
              (Inr u, w2) \<Rightarrow> (Inr (insert (snd dc) names), w2)
            | (Inl error, w2) \<Rightarrow>
                (Inr (insert (snd dc) names),
                 emit (EvConsole (WarnCreateCollectionFailed error)) w2)) = (r, w')"
    by (simp add: prepareCollection_def Let_def)
  from create_steps[OF this, of t] show ?thesis by auto
next
  case True
  obtain rd w1 where d: "call (dropCollection drv dc) (EvDropCollection dc) w = (rd, w1)"
    by (cases "call (dropCollection drv dc) (EvDropCollection dc) w")
  then have s1: "steps drv (\<lambda>e. touches t e \<longrightarrow> dc = t) w w1"
    by (rule steps_call) auto
  show ?thesis
  proof (cases rd)
    case (Inl error)
    with True d p s1 show ?thesis by (auto simp: prepareCollection_def)
  next
    case (Inr u)
    with True d p have "(case call (createCollection drv dc (map_option sanitizeOptions opts))
                       (EvCreateCollection dc (map_option sanitizeOptions opts)) w1 of
              (Inr u, w2) \<Rightarrow> (Inr (insert (snd dc) (names - {snd dc})), w2)
            | (Inl error, w2) \<Rightarrow>
                (Inr (insert (snd dc) (names - {snd dc})),
                 emit (EvConsole (WarnCreateCollectionFailed error)) w2)) = (r, w')"
      by (simp add: prepareCollection_def Let_def)
    from create_steps[OF this, of t] steps_trans[OF s1] show ?thesis by auto
  qed
qed

lemma steps_untouched: "steps drv (\<lambda>e. touches t e \<longrightarrow> dc = t) w w' \<Longrightarrow> dc \<noteq> t
    \<Longrightarrow> steps drv (\<lambda>e. \<not> touches t e) w w'"
  by (rule steps_mono) auto

lemma cloneDatabases_collections_steps:
  fixes drv :: "('s, bson) driver"
  assumes "cloneDatabases_collections drv shouldOverwrite skipIndexes dbName infos names w = Some (r, w')"
    and "dbName \<noteq> fst t \<or> (\<not> shouldOverwrite \<and> snd t \<in> names)"
  shows "steps drv (\<lambda>e. \<not> touches t e) w w'"
  using assms
proof (induction infos arbitrary: names w)
  case Nil
  then show ?case by (simp add: steps_refl)
next
  case (Cons collectionInfo rest)
  define collectionName where "collectionName = coll_name collectionInfo"
  show ?case
  proof (cases "collectionName = []")
    case True
    with Cons.prems(1) have
      "cloneDatabases_collections drv shouldOverwrite skipIndexes dbName rest names w = Some (r, w')"
      by (simp add: collectionName_def)
    from Cons.IH[OF this Cons.prems(2)] show ?thesis .
  next
    case ne: False
    show ?thesis
    proof (cases "\<not> shouldOverwrite \<and> collectionName \<in> names")
      case True
      with ne Cons.prems(1) have
        "cloneDatabases_collections drv shouldOverwrite skipIndexes dbName rest names
           (emit (EvConsole (SkippingCollection collectionName)) w) = Some (r, w')"
        by (simp add: collectionName_def)
      from Cons.IH[OF this Cons.prems(2)]
      have "steps drv (\<lambda>e. \<not> touches t e) (emit (EvConsole (SkippingCollection collectionName)) w) w'" .
      moreover have "steps drv (\<lambda>e. \<not> touches t e) w (emit (EvConsole (SkippingCollection collectionName)) w)"
        by (rule steps_emit) simp_all
      ultimately show ?thesis by (rule steps_trans[rotated])
    next
      case nskip: False
      from nskip Cons.prems(2) have other: "(dbName, collectionName) \<noteq> t" by auto
      define w0 where "w0 = emit (EvConsole (CloningCollection collectionName)) w"
      have "cloneDatabases_collections drv shouldOverwrite skipIndexes dbName (collectionInfo # rest) names w
        = (case prepareCollection drv (dbName, collectionName) (coll_options collectionInfo) names w0 of
             (Inl error, w1) \<Rightarrow> Some (Inl error, w1)
           | (Inr names1, w1) \<Rightarrow>
               (case cloneCollection drv (coll_docs collectionInfo) (dbName, collectionName) w1 of
                  None \<Rightarrow> None
                | Some (Inl error, w2) \<Rightarrow> Some (Inl error, w2)
                | Some (Inr u, w2) \<Rightarrow>
                    cloneDatabases_collections drv shouldOverwrite skipIndexes dbName rest names1
                      (if skipIndexes then w2
                       else syncIndexes drv (coll_indexes collectionInfo)
                              (dbName, collectionName) w2)))"
        using ne unfolding w0_def collectionName_def
        by (simp add: Let_def if_not_P[OF nskip[unfolded collectionName_def]])
      with Cons.prems(1) have False: "(case prepareCollection drv (dbName, collectionName) (coll_options collectionInfo) names w0 of
             (Inl error, w1) \<Rightarrow> Some (Inl error, w1)
           | (Inr names1, w1) \<Rightarrow>
               (case cloneCollection drv (coll_docs collectionInfo) (dbName, collectionName) w1 of
                  None \<Rightarrow> None
                | Some (Inl error, w2) \<Rightarrow> Some (Inl error, w2)
                | Some (Inr u, w2) \<Rightarrow>
                    cloneDatabases_collections drv shouldOverwrite skipIndexes dbName rest names1
                      (if skipIndexes then w2
                       else syncIndexes drv (coll_indexes collectionInfo)
                              (dbName, collectionName) w2))) = Some (r, w')"
        by simp
      have s0: "steps drv (\<lambda>e. \<not> touches t e) w w0"
        unfolding w0_def by (rule steps_emit) simp_all
      obtain rp w1 where p: "prepareCollection drv (dbName, collectionName)
           (coll_options collectionInfo) names w0 = (rp, w1)"
        by (cases "prepareCollection drv (dbName, collectionName) (coll_options collectionInfo) names w0")
      from prepareCollection_steps[OF p, of t] other
      have s1: "steps drv (\<lambda>e. \<not> touches t e) w0 w1"
        and sub: "\<forall>names1. rp = Inr names1 \<longrightarrow> names \<subseteq> names1"
        by (auto intro: steps_untouched)
      show ?thesis
      proof (cases rp)
        case (Inl error)
        with False p have "w' = w1"
          by simp
        with steps_trans[OF s0 s1] show ?thesis by simp
      next
        case (Inr names1)
        show ?thesis
        proof (cases "cloneCollection drv (coll_docs collectionInfo) (dbName, collectionName) w1")
          case None
          with False p Inr show ?thesis
            by simp
        next
          case (Some y)
          obtain rc w2 where y: "y = (rc, w2)" by (cases y)
          from Some have "steps drv (\<lambda>e. touches t e \<longrightarrow> (dbName, collectionName) = t) w1 (snd y)"
            unfolding cloneCollection_def by (rule cloneCollection_loop_steps)
          with other y have s2: "steps drv (\<lambda>e. \<not> touches t e) w1 w2"
            by (auto intro: steps_untouched)
          show ?thesis
          proof (cases rc)
            case (Inl error)
            with False p Inr Some y have "w' = w2"
              by simp
            with steps_trans[OF steps_trans[OF s0 s1] s2] show ?thesis by simp
          next
            case inr: (Inr u)
            define w3 where "w3 = (if skipIndexes then w2
                     else syncIndexes drv (coll_indexes collectionInfo) (dbName, collectionName) w2)"
            have s3: "steps drv (\<lambda>e. \<not> touches t e) w2 w3"
              unfolding w3_def using other
              by (auto intro: steps_refl steps_untouched[OF syncIndexes_steps])
            from False p Inr Some y inr have
              "cloneDatabases_collections drv shouldOverwrite skipIndexes dbName rest names1 w3
                 = Some (r, w')"
              by (simp add: w3_def)
            moreover from Cons.prems(2) sub Inr
            have "dbName \<noteq> fst t \<or> (\<not> shouldOverwrite \<and> snd t \<in> names1)" by auto
            ultimately have "steps drv (\<lambda>e. \<not> touches t e) w3 w'" by (rule Cons.IH)
            from steps_trans[OF steps_trans[OF steps_trans[OF steps_trans[OF s0 s1] s2] s3] this]
            show ?thesis .
          qed
        qed
      qed
    qed
  qed
qed


lemma replay_frame:
  assumes "\<forall>e s. \<not> touches t e \<longrightarrow> view (exec drv e s) = view s"
    and "\<forall>e\<in>set evs. \<not> touches t e"
  shows "view (replay drv evs s) = view s"
  using assms(2) by (induction evs arbitrary: s) (simp_all add: assms(1))

lemma steps_view:
  assumes "\<forall>e s. \<not> touches t e \<longrightarrow> view (exec drv e s) = view s"
    and "steps drv (\<lambda>e. \<not> touches t e) w w'"
  shows "view (dest w') = view (dest w)"
  using assms(2) replay_frame[OF assms(1)] unfolding steps_def by auto

lemma cloneDatabases_loop_steps:
  fixes drv :: "('s, bson) driver"
  assumes frame: "\<forall>e s. \<not> touches t e \<longrightarrow> view (exec drv e s) = view s"
    and listing: "\<forall>s names s'. present (view s) \<and> listCollections drv (fst t) s = (Inr names, s')
                    \<longrightarrow> snd t \<in> set names"
    and nov: "fst t \<notin> set overwrite"
    and pres: "present (view (dest w))"
    and run: "cloneDatabases_loop drv source overwrite skipIndexes databases w = Some (r, w')"
  shows "steps drv (\<lambda>e. \<not> touches t e) w w'"
  using pres run
proof (induction databases arbitrary: w)
  case Nil
  then show ?case by (simp add: steps_refl)
next
  case (Cons dbName databases)
  note view = steps_view[OF frame]
  define w1 where "w1 = emit (EvConsole (StartingClone dbName)) w"
  define shouldOverwrite where "shouldOverwrite = (dbName \<in> set overwrite)"
  have s1: "steps drv (\<lambda>e. \<not> touches t e) w w1"
    unfolding w1_def by (rule steps_emit) simp_all
  obtain rd w2 where d: "(if shouldOverwrite
               then call (dropDatabase drv dbName) (EvDropDatabase dbName)
                      (emit (EvConsole (OverwriteRequested dbName)) w1)
               else (Inr (), w1)) = (rd, w2)"
    by (cases "(if shouldOverwrite
               then call (dropDatabase drv dbName) (EvDropDatabase dbName)
                      (emit (EvConsole (OverwriteRequested dbName)) w1)
               else (Inr (), w1))")
  have s2: "steps drv (\<lambda>e. \<not> touches t e) w1 w2"
  proof (cases shouldOverwrite)
    case False
    with d show ?thesis by (simp add: steps_refl)
  next
    case True
    with nov have ne: "dbName \<noteq> fst t" by (auto simp: shouldOverwrite_def)
    have a: "steps drv (\<lambda>e. \<not> touches t e) w1 (emit (EvConsole (OverwriteRequested dbName)) w1)"
      by (rule steps_emit) simp_all
    from True d have "call (dropDatabase drv dbName) (EvDropDatabase dbName)
                      (emit (EvConsole (OverwriteRequested dbName)) w1) = (rd, w2)"
      by simp
    then have "steps drv (\<lambda>e. \<not> touches t e) (emit (EvConsole (OverwriteRequested dbName)) w1) w2"
      by (rule steps_call) (use ne in auto)
    from steps_trans[OF a this] show ?thesis .
  qed
  note s12 = steps_trans[OF s1 s2]
  have unfold: "cloneDatabases_loop drv source overwrite skipIndexes (dbName # databases) w =
     (case (rd, w2) of
           (Inl error, w2) \<Rightarrow> Some (Inl error, w2)
         | (Inr u, w2) \<Rightarrow>
             (let sourceCollections = source dbName in
              if sourceCollections = [] then
                cloneDatabases_loop drv source overwrite skipIndexes databases
                  (emit (EvConsole (NoCollectionsFound dbName)) w2)
              else
                (case call (listCollections drv dbName) (EvListCollections dbName) w2 of
                   (Inl error, w3) \<Rightarrow> Some (Inl error, w3)
                 | (Inr destinationCollections, w3) \<Rightarrow>
                     (case cloneDatabases_collections drv shouldOverwrite skipIndexes dbName
                             sourceCollections (set destinationCollections) w3 of
                        None \<Rightarrow> None
                      | Some (Inl error, w4) \<Rightarrow> Some (Inl error, w4)
                      | Some (Inr u, w4) \<Rightarrow>
                          cloneDatabases_loop drv source overwrite skipIndexes databases
                            (emit (EvConsole (FinishedCloning dbName)) w4)))))"
    unfolding d[symmetric] shouldOverwrite_def w1_def by (simp add: Let_def)
  show ?case
  proof (cases rd)
    case (Inl error)
    with unfold Cons.prems(2) have "w' = w2" by simp
    with s12 show ?thesis by simp
  next
    case rd: (Inr u)
    show ?thesis
    proof (cases "source dbName = []")
      case True
      define w3 where "w3 = emit (EvConsole (NoCollectionsFound dbName)) w2"
      have s3: "steps drv (\<lambda>e. \<not> touches t e) w2 w3"
        unfolding w3_def by (rule steps_emit) simp_all
      note s = steps_trans[OF s12 s3]
      from unfold rd True Cons.prems(2)
      have "cloneDatabases_loop drv source overwrite skipIndexes databases w3 = Some (r, w')"
        by (simp add: w3_def)
      moreover from view[OF s] Cons.prems(1) have "present (view (dest w3))" by simp
      ultimately have "steps drv (\<lambda>e. \<not> touches t e) w3 w'" by (rule Cons.IH[rotated])
      from steps_trans[OF s this] show ?thesis .
    next
      case False
      obtain rl w3 where l: "call (listCollections drv dbName) (EvListCollections dbName) w2 = (rl, w3)"
        by (cases "call (listCollections drv dbName) (EvListCollections dbName) w2")
      then have s3: "steps drv (\<lambda>e. \<not> touches t e) w2 w3"
        by (rule steps_call) auto
      note s123 = steps_trans[OF s12 s3]
      show ?thesis
      proof (cases rl)
        case (Inl error)
        with unfold rd False l Cons.prems(2) have "w' = w3" by simp
        with s123 show ?thesis by simp
      next
        case (Inr names)
        have cond: "dbName \<noteq> fst t \<or> (\<not> shouldOverwrite \<and> snd t \<in> set names)"
        proof (cases "dbName = fst t")
          case False
          then show ?thesis by simp
        next
          case True
          from view[OF s12] Cons.prems(1) have "present (view (dest w2))" by simp
          moreover from l Inr True
          have "listCollections drv (fst t) (dest w2)
                  = (Inr names, snd (listCollections drv (fst t) (dest w2)))"
            by (auto simp: call_eq prod_eq_iff)
          ultimately have "snd t \<in> set names" using listing by blast
          with True nov show ?thesis by (simp add: shouldOverwrite_def)
        qed
        show ?thesis
        proof (cases "cloneDatabases_collections drv shouldOverwrite skipIndexes dbName
                             (source dbName) (set names) w3")
          case None
          with unfold rd False l Inr Cons.prems(2) show ?thesis by simp
        next
          case (Some y)
          obtain ri w4 where y: "y = (ri, w4)" by (cases y)
          from cloneDatabases_collections_steps[OF Some[unfolded y] cond]
          have s4: "steps drv (\<lambda>e. \<not> touches t e) w3 w4" .
          note s1234 = steps_trans[OF s123 s4]
          show ?thesis
          proof (cases ri)
            case (Inl error)
            with unfold rd False l Inr Some y Cons.prems(2) have "w' = w4" by simp
            with s1234 show ?thesis by simp
          next
            case ri: (Inr u)
            define w5 where "w5 = emit (EvConsole (FinishedCloning dbName)) w4"
            have s5: "steps drv (\<lambda>e. \<not> touches t e) w4 w5"
              unfolding w5_def by (rule steps_emit) simp_all
            note s = steps_trans[OF s1234 s5]
            from unfold rd False l Inr Some y ri Cons.prems(2)
            have "cloneDatabases_loop drv source overwrite skipIndexes databases w5 = Some (r, w')"
              by (simp add: w5_def)
            moreover from view[OF s] Cons.prems(1) have "present (view (dest w5))" by simp
            ultimately have "steps drv (\<lambda>e. \<not> touches t e) w5 w'" by (rule Cons.IH[rotated])
            from steps_trans[OF s this] show ?thesis .
          qed
        qed
      qed
    qed
  qed
qed

subsection \<open>Claims about the copy orchestrator\<close>

text \<open>
  C7. Take a database \<open>db\<close> for which overwrite was not decided and a collection \<open>c\<close> of it
  that exists at the destination: \<open>view\<close> is any observation of the destination's state (such
  as the collection's document count and index set) that only an operation against the
  collection can change (dropping the database \<open>db\<close>; dropping or creating \<open>(db, c)\<close>, inserting
  into it, creating an index on it), and while this observation says the collection is
  present, the destination lists \<open>c\<close> among the collections of \<open>db\<close>. Then a run of
  \<^verbatim>\<open>cloneDatabases\<close> makes no such operation against \<open>(db, c)\<close>, whatever else it does and
  however it ends, and the observation is unchanged after the run.
\<close>

theorem skip_existing_collection:
  fixes drv :: "('s, bson) driver"
  assumes run: "cloneDatabases drv source databases overwrite skipIndexes w = Some (r, w')"
    and nov: "db \<notin> set overwrite"
    and frame: "\<forall>e s. \<not> touches (db, c) e \<longrightarrow> view (exec drv e s) = view s"
    and listing: "\<forall>s names s'. present (view s) \<and> listCollections drv db s = (Inr names, s')
                    \<longrightarrow> c \<in> set names"
    and pres: "present (view (dest w))"
  shows "\<exists>evs. trace w' = trace w @ evs \<and> dest w' = replay drv evs (dest w) \<and>
           (\<forall>e\<in>set evs. \<not> touches (db, c) e) \<and> view (dest w') = view (dest w)"
proof -
  from run have "cloneDatabases_loop drv source overwrite skipIndexes databases w = Some (r, w')"
    by (simp add: cloneDatabases_def)
  with frame listing nov pres have s: "steps drv (\<lambda>e. \<not> touches (db, c) e) w w'"
    by (intro cloneDatabases_loop_steps[where t = "(db, c)" and view = view and present = present])
       simp_all
  from steps_view[OF frame s] s show ?thesis
    unfolding steps_def by blast
qed


lemma map_of_filter_key: "P t \<Longrightarrow> map_of (filter (\<lambda>(c, x). P c) xs) t = map_of xs t"
  by (induction xs) auto

lemma map_of_map_other:
  "dc \<noteq> t \<Longrightarrow> map_of (map (\<lambda>(c, x). if c = dc then (c, f x) else (c, x)) xs) t = map_of xs t"
  by (induction xs) auto

lemma mem_update_other: "dc \<noteq> t \<Longrightarrow> map_of (colls (mem_update dc f m)) t = map_of (colls m) t"
  by (simp add: mem_update_def map_of_map_other map_add_def split: option.splits)

lemma mem_insert_other:
  "dc \<noteq> t \<Longrightarrow> map_of (colls (snd (mem_insert dc docs m))) t = map_of (colls m) t"
  by (simp add: mem_insert_def mem_update_other split: list.splits option.splits)

lemma memory_frame:
  "\<not> touches t e \<Longrightarrow> map_of (colls (exec memory_driver e m)) t = map_of (colls m) t"
proof (cases e)
  case (EvDropDatabase db r)
  assume "\<not> touches t e"
  with EvDropDatabase have "(\<lambda>c. fst c \<noteq> db) t" by simp
  from map_of_filter_key[of "\<lambda>c. fst c \<noteq> db" t "colls m", OF this] EvDropDatabase
  show ?thesis by (simp add: memory_driver_def)
next
  case (EvDropCollection dc r)
  assume "\<not> touches t e"
  with EvDropCollection have "(\<lambda>c. c \<noteq> dc) t" by auto
  from map_of_filter_key[of "\<lambda>c. c \<noteq> dc" t "colls m", OF this] EvDropCollection
  show ?thesis by (simp add: memory_driver_def)
qed (auto simp: memory_driver_def mem_update_other mem_insert_other)

lemma names_in_present: "map_of cs (db, c) \<noteq> None \<Longrightarrow> c \<in> set (names_in db cs)"
  by (induction db cs rule: names_in.induct) (auto split: if_splits)

lemma memory_listing:
  assumes "map_of (colls m) (db, c) \<noteq> None"
    and "listCollections memory_driver db m = (Inr names, m')"
  shows "c \<in> set names"
  using assms names_in_present[of "colls m" db c] by (auto simp: memory_driver_def)

lemma shop_eval:
  "map_option fst (cloneDatabases memory_driver shop_source [''shop''] [] False
      (start shop_destination [])) = Some (Inr ())"
  "colls (dest (snd (the (cloneDatabases memory_driver shop_source [''shop''] [] False
      (start shop_destination [])))))
   = [((''shop'', ''users''), ([Document (Some (BNumber 7)) ''old''], [''name''])),
      ((''shop'', ''orders''),
       ([Document (Some (BNumber 1)) ''a'', Document (Some (BNumber 2)) ''b'', Document (Some (BNumber 3)) ''c''], [''total'']))]"
  by (simp_all add: cloneDatabases_def shop_source_def shop_destination_def prepareCollection_def
        sanitizeOptions_def cloneCollection_def cloneCollection_loop.simps find_page_def
        find_filter_def PAGE_SIZE_def orders_def run_simps buildIndexOptions_def)


theorem skip_existing_collection_witness:
  "map_option fst (cloneDatabases memory_driver shop_source [''shop''] [] False
      (start shop_destination [])) = Some (Inr ()) \<and>
   map_of shop_destination (''shop'', ''users'') = Some ([Document (Some (BNumber 7)) ''old''], [''name'']) \<and>
   map_of (colls (dest (snd (the (cloneDatabases memory_driver shop_source [''shop''] [] False
      (start shop_destination [])))))) (''shop'', ''users'')
     = Some ([Document (Some (BNumber 7)) ''old''], [''name'']) \<and>
   list_all (\<lambda>e. \<not> touches (''shop'', ''users'') e)
     (trace (snd (the (cloneDatabases memory_driver shop_source [''shop''] [] False
        (start shop_destination []))))) \<and>
   map_of (colls (dest (snd (the (cloneDatabases memory_driver shop_source [''shop''] [] False
      (start shop_destination [])))))) (''shop'', ''orders'')
     = Some ([Document (Some (BNumber 1)) ''a'', Document (Some (BNumber 2)) ''b'', Document (Some (BNumber 3)) ''c''], [''total''])"
proof -
  define W :: "(bson memory, bson) world" where "W = start shop_destination []"
  define view :: "bson memory \<Rightarrow> (bson document list \<times> string list) option"
    where "view = (\<lambda>m. map_of (colls m) (''shop'', ''users''))"
  from shop_eval(1) obtain w' where
    run: "cloneDatabases memory_driver shop_source [''shop''] [] False W = Some (Inr (), w')"
    unfolding W_def by auto
  have nov: "''shop'' \<notin> set []" by simp
  have frame: "\<forall>e s. \<not> touches (''shop'', ''users'') e \<longrightarrow> view (exec memory_driver e s) = view s"
    by (simp add: view_def memory_frame)
  have listing: "\<forall>s names s'. view s \<noteq> None \<and> listCollections memory_driver ''shop'' s = (Inr names, s')
                    \<longrightarrow> ''users'' \<in> set names"
    unfolding view_def using memory_listing by blast
  have before: "view (dest W) = Some ([Document (Some (BNumber 7)) ''old''], [''name''])"
    by (simp add: view_def W_def start_def shop_destination_def)
  then have pres: "view (dest W) \<noteq> None" by simp
  from skip_existing_collection[OF run nov frame, of "\<lambda>v. v \<noteq> None", OF listing pres]
  obtain evs where
    h: "trace w' = trace W @ evs" "\<forall>e\<in>set evs. \<not> touches (''shop'', ''users'') e"
       "view (dest w') = view (dest W)"
    by blast
  have "trace W = []" by (simp add: W_def start_def)
  with h have "list_all (\<lambda>e. \<not> touches (''shop'', ''users'') e) (trace w')"
    by (simp add: list_all_iff)
  moreover from h(3) before have "map_of (colls (dest w')) (''shop'', ''users'')
     = Some ([Document (Some (BNumber 7)) ''old''], [''name''])"
    by (simp add: view_def)
  moreover have "map_of shop_destination (''shop'', ''users'')
     = Some ([Document (Some (BNumber 7)) ''old''], [''name''])"
    by (simp add: shop_destination_def)
  moreover have "map_of (colls (dest (snd (the (cloneDatabases memory_driver shop_source [''shop''] []
      False W))))) (''shop'', ''orders'')
     = Some ([Document (Some (BNumber 1)) ''a'', Document (Some (BNumber 2)) ''b'', Document (Some (BNumber 3)) ''c''], [''total''])"
    unfolding W_def by (simp add: shop_eval(2))
  ultimately show ?thesis
    using run unfolding W_def by simp
qed
subsection \<open>Claims about conflict resolution\<close>

lemma promptConflictResolution_loop_cancel:
  assumes "promptConflictResolution_loop ask before ov sk u = (res0, u0)"
    and "\<not> res_cancelled res0" and "ask dbName u0 = (Cancel, u')"
  shows "promptConflictResolution_loop ask (before @ dbName # after) ov sk u
           = (res0\<lparr>res_cancelled := True\<rparr>, u')"
  using assms
proof (induction before arbitrary: ov sk u)
  case Nil
  then show ?case by auto
next
  case (Cons b before)
  obtain a u1 where a: "ask b u = (a, u1)" by (cases "ask b u")
  show ?case
  proof (cases a)
    case Overwrite
    with a Cons.prems(1) have "promptConflictResolution_loop ask before (ov @ [b]) sk u1 = (res0, u0)"
      by simp
    from Cons.IH[OF this Cons.prems(2,3)] a Overwrite show ?thesis by simp
  next
    case Skip
    with a Cons.prems(1) have "promptConflictResolution_loop ask before ov (sk @ [b]) u1 = (res0, u0)"
      by simp
    from Cons.IH[OF this Cons.prems(2,3)] a Skip show ?thesis by simp
  next
    case Cancel
    with a Cons.prems(1,2) show ?thesis by auto
  qed
qed

text \<open>
  C4. Let a run reach conflict resolution (both connections and both listings succeed, and
  some selected database conflicts), and let the user answer overwrite or skip for the
  conflicting databases \<open>before\<close> and cancel for \<open>dbName\<close>. Then resolution stops there: the
  databases \<open>after\<close> are not asked about (the user's state is the one right after the cancel
  answer) and the resolution is marked cancelled. \<^verbatim>\<open>runCli\<close> ends with "Cloning cancelled by
  user due to conflicts." in the world left by the listing of the destination's databases:
  the only call on the destination is that read, \<^verbatim>\<open>cloneDatabases\<close> contributes nothing, and
  no event acts on any destination collection.
\<close>

theorem conflict_abort:
  fixes drv :: "('s, bson) driver"
  assumes src: "source_connect inp = Inr ()" "source_databaseNamesFull inp = Inr sourceFull"
      "databaseNamesNoConfig sourceFull \<noteq> []"
    and sel: "selectedDatabases =
        promptDatabaseSelection (databaseNamesNoConfig sourceFull) (selected_choices inp)"
    and dst: "destination_connect inp = Inr ()"
      "call (listDatabases drv) EvListDatabases w = (Inr destinationFull, w1)"
    and conf: "filter (\<lambda>name. name \<in> set (databaseNamesNoConfig destinationFull)) selectedDatabases
        = before @ dbName # after"
    and answers: "promptConflictResolution_loop (ask_conflict inp) before [] [] u = (res0, u0)"
      "\<not> res_cancelled res0"
    and cancel: "ask_conflict inp dbName u0 = (Cancel, u')"
  shows "promptConflictResolution (ask_conflict inp) (before @ dbName # after) u
           = (res0\<lparr>res_cancelled := True\<rparr>, u') \<and>
         runCli drv source inp skipIndexes u w = Some (CancelledDueToConflicts, u', w1) \<and>
         trace w1 = trace w @ [EvListDatabases (Inr destinationFull)] \<and>
         dest w1 = snd (listDatabases drv (dest w)) \<and>
         (\<forall>t. \<not> touches t (EvListDatabases (Inr destinationFull) :: bson event))"
proof -
  have res: "promptConflictResolution (ask_conflict inp) (before @ dbName # after) u
           = (res0\<lparr>res_cancelled := True\<rparr>, u')"
    unfolding promptConflictResolution_def
    by (rule promptConflictResolution_loop_cancel[OF answers cancel])
  from conf have ne: "selectedDatabases \<noteq> []" by auto
  have "runCli drv source inp skipIndexes u w = Some (CancelledDueToConflicts, u', w1)"
    unfolding runCli_def using src dst ne res
    by (simp add: Let_def sel[symmetric] conf)
  moreover from dst(2) have "trace w1 = trace w @ [EvListDatabases (Inr destinationFull)]"
    by (rule trace_call)
  moreover from dst(2) have "dest w1 = snd (listDatabases drv (dest w))"
    by (auto simp: call_eq)
  ultimately show ?thesis using res by simp
qed


theorem conflict_abort_witness:
  "runCli memory_driver shop_source cli_example False ([Overwrite, Cancel, Overwrite], [])
      (start three_databases [])
     = Some (CancelledDueToConflicts, ([Overwrite], [''alpha'', ''beta'']),
             snd (call (listDatabases memory_driver) EvListDatabases (start three_databases []))) \<and>
   colls (dest (snd (call (listDatabases memory_driver) EvListDatabases
      (start three_databases [] :: (bson memory, bson) world)))) = three_databases \<and>
   trace (snd (call (listDatabases memory_driver) EvListDatabases
      (start three_databases [] :: (bson memory, bson) world)))
     = [EvListDatabases (Inr [''alpha'', ''beta'', ''gamma''])]"
proof -
  define W :: "(bson memory, bson) world" where "W = start three_databases []"
  define full where "full = [''admin'', ''alpha'', ''beta'', ''gamma'', ''delta'', ''local'']"
  have src: "source_connect cli_example = Inr ()" "source_databaseNamesFull cli_example = Inr full"
    by (simp_all add: cli_example_def full_def)
  have names: "databaseNamesNoConfig full = [''alpha'', ''beta'', ''gamma'', ''delta'']"
    by (simp add: databaseNamesNoConfig_def full_def)
  then have ne: "databaseNamesNoConfig full \<noteq> []" by simp
  have sel: "[''alpha'', ''beta'', ''gamma'', ''delta'']
      = promptDatabaseSelection (databaseNamesNoConfig full) (selected_choices cli_example)"
    by (simp add: names promptDatabaseSelection_def cli_example_def)
  have dst: "destination_connect cli_example = Inr ()"
    by (simp add: cli_example_def)
  have listing: "call (listDatabases memory_driver) EvListDatabases W
      = (Inr [''alpha'', ''beta'', ''gamma''], snd (call (listDatabases memory_driver) EvListDatabases W))"
    by (simp add: call_eq memory_driver_def W_def start_def three_databases_def)
  have conf: "filter (\<lambda>name. name \<in> set (databaseNamesNoConfig [''alpha'', ''beta'', ''gamma'']))
        [''alpha'', ''beta'', ''gamma'', ''delta''] = [''alpha''] @ ''beta'' # [''gamma'']"
    by (simp add: databaseNamesNoConfig_def)
  have answers: "promptConflictResolution_loop (ask_conflict cli_example) [''alpha''] [] []
        ([Overwrite, Cancel, Overwrite], [])
      = (\<lparr>res_overwrite = [''alpha''], res_skip = [], res_cancelled = False\<rparr>,
         ([Cancel, Overwrite], [''alpha'']))"
    by (simp add: cli_example_def scripted_user_def)
  have nc: "\<not> res_cancelled \<lparr>res_overwrite = [''alpha''], res_skip = [], res_cancelled = False\<rparr>"
    by simp
  have cancel: "ask_conflict cli_example ''beta'' ([Cancel, Overwrite], [''alpha''])
      = (Cancel, ([Overwrite], [''alpha'', ''beta'']))"
    by (simp add: cli_example_def scripted_user_def)
  from conflict_abort[OF src ne sel dst listing conf answers nc cancel, of shop_source False]
  have "runCli memory_driver shop_source cli_example False ([Overwrite, Cancel, Overwrite], []) W
     = Some (CancelledDueToConflicts, ([Overwrite], [''alpha'', ''beta'']),
             snd (call (listDatabases memory_driver) EvListDatabases W))"
    and "trace (snd (call (listDatabases memory_driver) EvListDatabases W))
           = trace W @ [EvListDatabases (Inr [''alpha'', ''beta'', ''gamma''])]"
    by simp_all
  moreover have "colls (dest (snd (call (listDatabases memory_driver) EvListDatabases W)))
      = three_databases"
    by (simp add: call_eq memory_driver_def W_def start_def)
  moreover have "trace W = []" by (simp add: W_def start_def)
  ultimately show ?thesis
    unfolding W_def by simp
qed
lemma xtrace_xemit [simp]: "xtrace (xemit e w) = xtrace w @ [e]"
  by (simp add: xemit_def)

lemma outside_xemit [simp]: "outside (xemit e w) = outside w"
  by (simp add: xemit_def)

lemma xcall_eq:
  "xcall operation ev w =
     (fst (operation (outside w)),
      xemit (ev (fst (operation (outside w)))) (w\<lparr>outside := snd (operation (outside w))\<rparr>))"
  by (simp add: xcall_def split: prod.splits)

lemma xtrace_xcall: "xcall operation ev w = (r, w') \<Longrightarrow> xtrace w' = xtrace w @ [ev r]"
  by (auto simp: xcall_eq)

lemma derive_payload_grows:
  "derive_payload x record w = (payload, w1) \<Longrightarrow> \<exists>evs. xtrace w1 = xtrace w @ evs"
  by (auto simp: derive_payload_def Let_def xcall_eq split: if_splits)

lemma externalize_grows:
  assumes "externalize x bucket cn record i w = (r, w')"
  shows "\<exists>evs. xtrace w' = xtrace w @ evs"
proof -
  obtain payload w1 where p: "derive_payload x record w = (payload, w1)"
    by (cases "derive_payload x record w")
  from derive_payload_grows[OF p] obtain evs1 where e1: "xtrace w1 = xtrace w @ evs1" by blast
  from assms p have "\<exists>evs. xtrace w' = xtrace w1 @ evs"
    by (auto simp: externalize_def Let_def xcall_eq split: sum.splits prod.splits)
  with e1 show ?thesis by auto
qed

subsection \<open>Claims about the externalization migrator\<close>

text \<open>
  C9. For a source record with no \<^verbatim>\<open>_id\<close> field, \<^verbatim>\<open>migrateDocument\<close> returns \<^verbatim>\<open>null\<close> and
  leaves the world as it was, with resume or without: no resume lookup, no upload, no
  change-version increment, no head write. The loop of \<^verbatim>\<open>migrateCollection\<close> then goes on with
  the next record, with the same counter \<^verbatim>\<open>migrated\<close> and no progress line.
\<close>

theorem record_without_id_skipped:
  assumes "''_id'' \<notin> set (map fst record)"
  shows "migrateDocument x bucket collectionName record resume w = (Inr None, w) \<and>
         migrate_loop x bucket collectionName resume total' (record # rest) migrated w
           = migrate_loop x bucket collectionName resume total' rest migrated w"
proof -
  from assms have "map_of record ''_id'' = None"
    by (simp add: map_of_eq_None_iff)
  then have "field record ''_id'' = JUndefined" by (simp add: field_def)
  then have "migrateDocument x bucket collectionName record resume w = (Inr None, w)"
    by (simp add: migrateDocument_def)
  then show ?thesis by simp
qed


lemma migrateDocument_resume:
  assumes "migrateDocument x bucket cn record True w = (r, w')"
  shows "\<exists>evs. xtrace w' = xtrace w @ evs \<and>
           (list_all lookup_found evs \<longrightarrow>
              r = Inr None \<and> list_all is_lookup evs \<and>
              length evs = (if truthy (field record ''_id'') then 1 else 0))"
proof (cases "truthy (field record ''_id'')")
  case False
  with assms show ?thesis by (simp add: migrateDocument_def)
next
  case True
  define i where "i = field record ''_id''"
  obtain rl w1 where l: "xcall (head_findOne x cn i) (XFindOne cn i) w = (rl, w1)"
    by (cases "xcall (head_findOne x cn i) (XFindOne cn i) w")
  note t1 = xtrace_xcall[OF l]
  show ?thesis
  proof (cases rl)
    case (Inl error)
    with assms True l have "w' = w1" by (simp add: migrateDocument_def i_def)
    with t1 Inl show ?thesis by (intro exI[of _ "[XFindOne cn i rl]"]) simp
  next
    case (Inr existingHead)
    show ?thesis
    proof (cases "case existingHead of None \<Rightarrow> False | Some head \<Rightarrow> truthy (storage_key head)")
      case found: True
      with assms True l Inr have "r = Inr None" "w' = w1"
        by (simp_all add: migrateDocument_def i_def)
      with t1 True show ?thesis by (intro exI[of _ "[XFindOne cn i rl]"]) simp
    next
      case False
      with assms True l Inr have "externalize x bucket cn record i w1 = (r, w')"
        by (simp add: migrateDocument_def i_def)
      from externalize_grows[OF this] obtain evs where "xtrace w' = xtrace w1 @ evs" by blast
      with t1 have "xtrace w' = xtrace w @ XFindOne cn i rl # evs" by simp
      moreover from False Inr have "\<not> lookup_found (XFindOne cn i rl)"
        by (cases existingHead) simp_all
      ultimately show ?thesis by (intro exI[of _ "XFindOne cn i rl # evs"]) simp
    qed
  qed
qed

lemma migrate_loop_resume:
  assumes "migrate_loop x bucket cn True total' records migrated w = (r, w')"
  shows "\<exists>evs. xtrace w' = xtrace w @ evs \<and>
           (list_all lookup_found evs \<longrightarrow>
              r = Inr migrated \<and> list_all is_lookup evs \<and>
              length evs = length (filter (\<lambda>record. truthy (field record ''_id'')) records))"
  using assms
proof (induction records arbitrary: w migrated)
  case Nil
  then show ?case by simp
next
  case (Cons doc rest)
  obtain r1 w1 where d: "migrateDocument x bucket cn doc True w = (r1, w1)"
    by (cases "migrateDocument x bucket cn doc True w")
  from migrateDocument_resume[OF d] obtain evs1 where
    e1: "xtrace w1 = xtrace w @ evs1"
        "list_all lookup_found evs1 \<longrightarrow>
              r1 = Inr None \<and> list_all is_lookup evs1 \<and>
              length evs1 = (if truthy (field doc ''_id'') then 1 else 0)"
    by blast
  show ?case
  proof (cases r1)
    case (Inl error)
    with d Cons.prems have "w' = w1" by simp
    with e1 Inl show ?thesis by (intro exI[of _ evs1]) auto
  next
    case (Inr res)
    show ?thesis
    proof (cases res)
      case None
      with d Inr Cons.prems have "migrate_loop x bucket cn True total' rest migrated w1 = (r, w')"
        by simp
      from Cons.IH[OF this] obtain evs2 where
        e2: "xtrace w' = xtrace w1 @ evs2"
            "list_all lookup_found evs2 \<longrightarrow>
               r = Inr migrated \<and> list_all is_lookup evs2 \<and>
               length evs2 = length (filter (\<lambda>record. truthy (field record ''_id'')) rest)"
        by blast
      from e1 e2 show ?thesis by (intro exI[of _ "evs1 @ evs2"]) auto
    next
      case (Some idHex)
      with d Inr Cons.prems have "migrate_loop x bucket cn True total' rest (migrated + 1)
            (xemit (XConsole (Progress (migrated + 1) total')) w1) = (r, w')"
        by simp
      from Cons.IH[OF this] obtain evs2 where
        e2: "xtrace w' = xtrace (xemit (XConsole (Progress (migrated + 1) total')) w1) @ evs2"
        by blast
      from e1 Inr Some have "\<not> list_all lookup_found evs1" by auto
      with e1 e2 show ?thesis
        by (intro exI[of _ "evs1 @ XConsole (Progress (migrated + 1) total') # evs2"]) auto
    qed
  qed
qed


lemma failed_reads_simps [simp]:
  "failed_reads [] = []" "failed_reads (e # es) = failed_read_of e @ failed_reads es"
  "failed_reads (xs @ ys) = failed_reads xs @ failed_reads ys"
  by (simp_all add: failed_reads_def)

lemma ok_reads_simps [simp]:
  "ok_reads [] = []" "ok_reads (e # es) = ok_read_of e @ ok_reads es"
  "ok_reads (xs @ ys) = ok_reads xs @ ok_reads ys"
  by (simp_all add: ok_reads_def)

lemma xlines_simps [simp]:
  "xlines [] = []" "xlines (e # es) = line_of e @ xlines es"
  "xlines (xs @ ys) = xlines xs @ xlines ys"
  by (simp_all add: xlines_def)

lemma validate_loop_events:
  assumes "validate_loop x bucket cn docs validated failures w = (validated', failures', w')"
  shows "\<exists>evs ds. xtrace w' = xtrace w @ evs \<and> list_all validation_event evs \<and>
           validated' = validated + length (ok_reads evs) \<and>
           length (ok_reads evs) + length (failed_reads evs)
             = length (filter (\<lambda>d. truthy (storage_key d)) docs) \<and>
           xlines evs = map (\<lambda>(k, e). ValidationFailed cn k e) (failed_reads evs) \<and>
           failures' = failures @ map (id_text x) ds \<and>
           map storage_key ds = map fst (failed_reads evs) \<and> set ds \<subseteq> set docs"
  using assms
proof (induction docs arbitrary: validated failures w)
  case Nil
  then show ?case by (intro exI[of _ "[]"]) simp
next
  case (Cons doc rest)
  show ?case
  proof (cases "truthy (storage_key doc)")
    case False
    with Cons.prems have "validate_loop x bucket cn rest validated failures w
        = (validated', failures', w')"
      by simp
    from Cons.IH[OF this] False show ?thesis by auto
  next
    case True
    obtain rg w1 where g: "xcall (getJSON x bucket (storage_key doc))
        (XGetJSON bucket (storage_key doc)) w = (rg, w1)"
      by (cases "xcall (getJSON x bucket (storage_key doc)) (XGetJSON bucket (storage_key doc)) w")
    note t1 = xtrace_xcall[OF g]
    show ?thesis
    proof (cases rg)
      case (Inr got)
      with True g Cons.prems have "validate_loop x bucket cn rest (validated + 1) failures w1
        = (validated', failures', w')"
        by simp
      from Cons.IH[OF this] obtain evs ds where
        h: "xtrace w' = xtrace w1 @ evs" "list_all validation_event evs"
           "validated' = validated + 1 + length (ok_reads evs)"
           "length (ok_reads evs) + length (failed_reads evs)
              = length (filter (\<lambda>d. truthy (storage_key d)) rest)"
           "xlines evs = map (\<lambda>(k, e). ValidationFailed cn k e) (failed_reads evs)"
           "failures' = failures @ map (id_text x) ds"
           "map storage_key ds = map fst (failed_reads evs)" "set ds \<subseteq> set rest"
        by blast
      from h t1 True Inr show ?thesis
        by (intro exI[of _ "XGetJSON bucket (storage_key doc) rg # evs"] exI[of _ ds]) auto
    next
      case (Inl error)
      with True g Cons.prems have "validate_loop x bucket cn rest validated
          (failures @ [id_text x doc])
          (xemit (XConsole (ValidationFailed cn (storage_key doc) error)) w1)
        = (validated', failures', w')"
        by simp
      from Cons.IH[OF this] obtain evs ds where
        h: "xtrace w' = xtrace (xemit (XConsole (ValidationFailed cn (storage_key doc) error)) w1) @ evs"
           "list_all validation_event evs"
           "validated' = validated + length (ok_reads evs)"
           "length (ok_reads evs) + length (failed_reads evs)
              = length (filter (\<lambda>d. truthy (storage_key d)) rest)"
           "xlines evs = map (\<lambda>(k, e). ValidationFailed cn k e) (failed_reads evs)"
           "failures' = (failures @ [id_text x doc]) @ map (id_text x) ds"
           "map storage_key ds = map fst (failed_reads evs)" "set ds \<subseteq> set rest"
        by blast
      from h t1 True Inl show ?thesis
        by (intro exI[of _ "XGetJSON bucket (storage_key doc) rg
              # XConsole (ValidationFailed cn (storage_key doc) error) # evs"]
            exI[of _ "doc # ds"]) auto
    qed
  qed
qed

lemma validateCollection_events:
  assumes "validateCollection x bucket cn w = (r, w')"
  shows "\<exists>evs. xtrace w' = xtrace w @ evs \<and> list_all validation_event evs"
proof -
  obtain rf w1 where f: "xcall (head_find x cn) (XFindHeads cn) w = (rf, w1)"
    by (cases "xcall (head_find x cn) (XFindHeads cn) w")
  note t1 = xtrace_xcall[OF f]
  show ?thesis
  proof (cases rf)
    case (Inl error)
    with f assms have "w' = w1" by (simp add: validateCollection_def)
    with t1 show ?thesis by (intro exI[of _ "[XFindHeads cn rf]"]) simp
  next
    case (Inr docs)
    obtain v fs w2 where l: "validate_loop x bucket cn docs 0 [] w1 = (v, fs, w2)"
      by (metis prod_cases3)
    from validate_loop_events[OF l] obtain evs where
      e: "xtrace w2 = xtrace w1 @ evs" "list_all validation_event evs"
      by blast
    from f Inr l assms have "w' = xemit (XConsole (if fs = [] then ValidationPassed v
                                 else ValidationCompleted (length fs))) w2"
      by (simp add: validateCollection_def)
    with t1 e show ?thesis
      by (intro exI[of _ "XFindHeads cn rf # evs @ [XConsole (if fs = [] then ValidationPassed v
                                 else ValidationCompleted (length fs))]"]) simp
  qed
qed

lemma validation_event_plain:
  "validation_event e \<Longrightarrow> \<not> is_write e \<and> \<not> counts_migrated e \<and> lookup_found e"
  by (induction e rule: validation_event.induct) simp_all

lemma is_lookup_plain: "is_lookup e \<Longrightarrow> \<not> is_write e \<and> \<not> counts_migrated e"
  by (cases e) simp_all


lemma migrateCollection_resume:
  assumes run: "migrateCollection x cn records True validate w = (r, w')"
  shows "\<exists>evs. xtrace w' = xtrace w @ evs \<and>
           (list_all lookup_found evs \<longrightarrow>
              list_all (\<lambda>e. \<not> is_write e) evs \<and> list_all (\<lambda>e. \<not> counts_migrated e) evs)"
proof (cases "length records = 0")
  case True
  with run have "w' = xemit (XConsole NoDocumentsFound) w"
    by (simp add: migrateCollection_def)
  then show ?thesis by (intro exI[of _ "[XConsole NoDocumentsFound]"]) simp
next
  case False
  obtain rc w1 where c: "xcall (connectTarget x cn) (XConnectTarget cn) w = (rc, w1)"
    by (cases "xcall (connectTarget x cn) (XConnectTarget cn) w")
  note t1 = xtrace_xcall[OF c]
  show ?thesis
  proof (cases rc)
    case (Inl error)
    with False c run have "w' = w1" by (simp add: migrateCollection_def Let_def)
    with t1 show ?thesis by (intro exI[of _ "[XConnectTarget cn rc]"]) simp
  next
    case (Inr bucket)
    obtain re w2 where e: "xcall (ensureIndexes x cn) (XEnsureIndexes cn) w1 = (re, w2)"
      by (cases "xcall (ensureIndexes x cn) (XEnsureIndexes cn) w1")
    note t2 = xtrace_xcall[OF e]
    show ?thesis
    proof (cases re)
      case (Inl error)
      with False c Inr e run have "w' = w2" by (simp add: migrateCollection_def Let_def)
      with t1 t2 show ?thesis
        by (intro exI[of _ "[XConnectTarget cn rc, XEnsureIndexes cn re]"]) simp
    next
      case ensured: (Inr u)
      obtain rl w3 where l: "migrate_loop x bucket cn True (length records) records 0 w2 = (rl, w3)"
        by (cases "migrate_loop x bucket cn True (length records) records 0 w2")
      from migrate_loop_resume[OF l] obtain evs3 where
        e3: "xtrace w3 = xtrace w2 @ evs3"
            "list_all lookup_found evs3 \<longrightarrow> rl = Inr 0 \<and> list_all is_lookup evs3"
        by blast
      show ?thesis
      proof (cases rl)
        case (Inl error)
        with False c Inr e ensured l run have "w' = w3"
          by (simp add: migrateCollection_def Let_def)
        with t1 t2 e3 Inl show ?thesis
          by (intro exI[of _ "XConnectTarget cn rc # XEnsureIndexes cn re # evs3"]) auto
      next
        case migrated: (Inr migrated)
        define w4 where "w4 = xemit (XConsole (Finished migrated (length records))) w3"
        have "\<exists>evs4. xtrace w' = xtrace w4 @ evs4 \<and> list_all validation_event evs4"
        proof (cases validate)
          case True
          with False c Inr e ensured l migrated run
          have "validateCollection x bucket cn w4 = (r, w')"
            by (simp add: migrateCollection_def Let_def w4_def)
          then show ?thesis by (rule validateCollection_events)
        next
          case no: False
          with False c Inr e ensured l migrated run have "w' = w4"
            by (simp add: migrateCollection_def Let_def w4_def)
          then show ?thesis by (intro exI[of _ "[]"]) simp
        qed
        then obtain evs4 where
          e4: "xtrace w' = xtrace w4 @ evs4" "list_all validation_event evs4"
          by blast
        from e4(2) have plain: "list_all (\<lambda>e. \<not> is_write e) evs4"
            "list_all (\<lambda>e. \<not> counts_migrated e) evs4"
          by (auto simp: list_all_iff dest: validation_event_plain)
        have "xtrace w' = xtrace w @ XConnectTarget cn rc # XEnsureIndexes cn re # evs3
                @ XConsole (Finished migrated (length records)) # evs4"
          using t1 t2 e3(1) e4(1) by (simp add: w4_def)
        moreover have "list_all lookup_found evs3 \<longrightarrow>
            list_all (\<lambda>e. \<not> is_write e) evs3 \<and> list_all (\<lambda>e. \<not> counts_migrated e) evs3
            \<and> migrated = 0"
          using e3(2) migrated by (auto simp: list_all_iff dest: is_lookup_plain)
        ultimately show ?thesis
          using plain
          by (intro exI[of _ "XConnectTarget cn rc # XEnsureIndexes cn re # evs3
                @ XConsole (Finished migrated (length records)) # evs4"]) auto
      qed
    qed
  qed
qed

text \<open>
  C5. With resume, a record whose head lookup finds a head document with a non-empty
  \<^verbatim>\<open>_system.storage.key\<close> is skipped: \<^verbatim>\<open>migrateDocument\<close> returns \<^verbatim>\<open>null\<close>, the lookup is the
  only event, and the loop goes on with the same counter. Hence a run of
  \<^verbatim>\<open>migrateCollection\<close> with resume in which every head lookup finds such a head (the
  collection is fully migrated) makes no upload, no change-version increment and no
  upsert of a head document, and counts no record as migrated.
\<close>

theorem resume_skips_migrated:
  assumes look: "xcall (head_findOne x cn (field record ''_id'')) (XFindOne cn (field record ''_id'')) w
                   = (Inr (Some head), w1)"
    and key: "truthy (storage_key head)"
  shows "migrateDocument x bucket cn record True w
           = (Inr None, if truthy (field record ''_id'') then w1 else w) \<and>
         xtrace w1 = xtrace w @ [XFindOne cn (field record ''_id'') (Inr (Some head))] \<and>
         migrate_loop x bucket cn True total' (record # rest) migrated w
           = migrate_loop x bucket cn True total' rest migrated
               (if truthy (field record ''_id'') then w1 else w) \<and>
         (\<forall>records validate w0 r w' evs.
            migrateCollection x cn records True validate w0 = (r, w') \<and>
            xtrace w' = xtrace w0 @ evs \<and> list_all lookup_found evs \<longrightarrow>
            list_all (\<lambda>e. \<not> is_write e) evs \<and> list_all (\<lambda>e. \<not> counts_migrated e) evs)"
proof -
  have doc: "migrateDocument x bucket cn record True w
           = (Inr None, if truthy (field record ''_id'') then w1 else w)"
    using look key by (simp add: migrateDocument_def)
  have "\<forall>records validate w0 r w' evs.
            migrateCollection x cn records True validate w0 = (r, w') \<and>
            xtrace w' = xtrace w0 @ evs \<and> list_all lookup_found evs \<longrightarrow>
            list_all (\<lambda>e. \<not> is_write e) evs \<and> list_all (\<lambda>e. \<not> counts_migrated e) evs"
  proof (intro allI impI)
    fix records validate w0 r w' evs
    assume a: "migrateCollection x cn records True validate w0 = (r, w') \<and>
            xtrace w' = xtrace w0 @ evs \<and> list_all lookup_found evs"
    from migrateCollection_resume[of x cn records validate w0 r w'] a
    obtain evs' where "xtrace w' = xtrace w0 @ evs'"
      "list_all lookup_found evs' \<longrightarrow>
         list_all (\<lambda>e. \<not> is_write e) evs' \<and> list_all (\<lambda>e. \<not> counts_migrated e) evs'"
      by blast
    with a show "list_all (\<lambda>e. \<not> is_write e) evs \<and> list_all (\<lambda>e. \<not> counts_migrated e) evs"
      by auto
  qed
  with doc xtrace_xcall[OF look] show ?thesis by simp
qed

text \<open>
  C8, amended. Let the head documents be read, and let exactly one read-back of the
  validation pass fail, for the key \<open>key\<close> with the error \<open>error\<close>. Then that key is the
  storage key of a head document, whose id is the one entry of \<^verbatim>\<open>failures\<close>; the one warning
  line names the collection and this key; the counter \<^verbatim>\<open>validated\<close> ends one short of the
  number of head documents that have a storage key; the pass writes nothing; and
  \<^verbatim>\<open>validateCollection\<close> returns normally, its last line being "Validation completed with 1
  failures": the number of documents that passed is not printed.
\<close>

theorem validation_one_missing:
  assumes find: "xcall (head_find x cn) (XFindHeads cn) w = (Inr docs, w1)"
    and run: "validate_loop x bucket cn docs 0 [] w1 = (validated, failures, w2)"
    and tr: "xtrace w2 = xtrace w1 @ evs"
    and one: "failed_reads evs = [(key, error)]"
  shows "(\<exists>doc\<in>set docs. storage_key doc = key \<and> failures = [id_text x doc]) \<and>
         xlines evs = [ValidationFailed cn key error] \<and>
         validated + 1 = length (filter (\<lambda>d. truthy (storage_key d)) docs) \<and>
         list_all (\<lambda>e. \<not> is_write e) evs \<and>
         validateCollection x bucket cn w
           = (Inr (), xemit (XConsole (ValidationCompleted 1)) w2)"
proof -
  from validate_loop_events[OF run] tr obtain ds where
    h: "list_all validation_event evs"
       "validated = 0 + length (ok_reads evs)"
       "length (ok_reads evs) + length (failed_reads evs)
          = length (filter (\<lambda>d. truthy (storage_key d)) docs)"
       "xlines evs = map (\<lambda>(k, e). ValidationFailed cn k e) (failed_reads evs)"
       "failures = [] @ map (id_text x) ds"
       "map storage_key ds = map fst (failed_reads evs)" "set ds \<subseteq> set docs"
    by auto
  from h(6) one obtain doc where ds: "ds = [doc]" "storage_key doc = key"
    by (cases ds) auto
  with h(5,7) have "\<exists>doc\<in>set docs. storage_key doc = key \<and> failures = [id_text x doc]"
    by auto
  moreover from h(4) one have "xlines evs = [ValidationFailed cn key error]" by simp
  moreover from h(2,3) one have "validated + 1 = length (filter (\<lambda>d. truthy (storage_key d)) docs)"
    by simp
  moreover from h(1) have "list_all (\<lambda>e. \<not> is_write e) evs"
    by (auto simp: list_all_iff dest: validation_event_plain)
  moreover from find run h(5) ds have "validateCollection x bucket cn w
           = (Inr (), xemit (XConsole (ValidationCompleted 1)) w2)"
    by (simp add: validateCollection_def)
  ultimately show ?thesis by simp
qed


lemmas xrun_simps = migrateCollection_def migrateDocument_def externalize_def derive_payload_def
  needs_id_def field_def set_field_def trims_to_empty_def derive_metaIndexed_def build_headDoc_def
  validateCollection_def xcall_eq xemit_def memory_xronox_def storage_key_def Let_def people_def
  migrated_people_def pointer_def

lemma people_second_run:
  "xtrace (snd (migrateCollection memory_xronox ''people'' people True False migrated_people))
     = [XConnectTarget ''people'' (Inr ''bucket''), XEnsureIndexes ''people'' (Inr ()),
        XFindOne ''people'' (JObjectId ''a1'') (Inr (Some (pointer ''a1'' ''people/a1.json''))),
        XFindOne ''people'' (JObjectId ''b2'') (Inr (Some (pointer ''b2'' ''people/b2.json''))),
        XFindOne ''people'' (JObjectId ''c3'') (Inr (Some (pointer ''c3'' ''people/c3.json''))),
        XConsole (Finished 0 4)]"
  "outside (snd (migrateCollection memory_xronox ''people'' people True False migrated_people))
     = outside migrated_people"
  by (simp_all add: xrun_simps)

lemma people_validation:
  "xlines (xtrace (snd (validateCollection memory_xronox ''bucket'' ''people'' migrated_people)))
     = [ValidationFailed ''people'' (JStr ''people/a1.json'') NO_SUCH_KEY, ValidationCompleted 1]"
  by (simp add: xrun_simps)

lemma people_first_run:
  "fst (migrate_loop memory_xronox ''bucket'' ''people'' False 4 people 0
      \<lparr>outside = \<lparr>heads = [], objects = [], counter = 0\<rparr>, xtrace = []\<rparr>) = Inr 3"
  "map fst (objects (outside (snd (migrate_loop memory_xronox ''bucket'' ''people'' False 4 people 0
      \<lparr>outside = \<lparr>heads = [], objects = [], counter = 0\<rparr>, xtrace = []\<rparr>))))
     = [''people/a1.json'', ''people/b2.json'', ''people/c3.json'']"
  by (simp_all add: xrun_simps)


theorem record_without_id_skipped_witness:
  "migrateDocument memory_xronox ''bucket'' ''people'' [(''name'', JStr ''Nobody'')] False
      migrated_people = (Inr None, migrated_people) \<and>
   migrateDocument memory_xronox ''bucket'' ''people'' [(''name'', JStr ''Nobody'')] True
      migrated_people = (Inr None, migrated_people) \<and>
   length people = 4 \<and>
   fst (migrate_loop memory_xronox ''bucket'' ''people'' False 4 people 0
      \<lparr>outside = \<lparr>heads = [], objects = [], counter = 0\<rparr>, xtrace = []\<rparr>) = Inr 3"
proof -
  have h: "''_id'' \<notin> set (map fst [(''name'', JStr ''Nobody'')])" by simp
  from record_without_id_skipped[OF h, of memory_xronox "''bucket''" "''people''" False migrated_people]
    record_without_id_skipped[OF h, of memory_xronox "''bucket''" "''people''" True migrated_people]
    people_first_run(1)
  show ?thesis by (simp add: people_def)
qed

theorem resume_skips_migrated_witness:
  "migrateDocument memory_xronox ''bucket'' ''people''
      [(''_id'', JObjectId ''a1''), (''name'', JStr ''Ann'')] True migrated_people
     = (Inr None,
        snd (xcall (head_findOne memory_xronox ''people'' (JObjectId ''a1''))
               (XFindOne ''people'' (JObjectId ''a1'')) migrated_people)) \<and>
   list_all (\<lambda>e. \<not> is_write e)
     (xtrace (snd (migrateCollection memory_xronox ''people'' people True False migrated_people))) \<and>
   outside (snd (migrateCollection memory_xronox ''people'' people True False migrated_people))
     = outside migrated_people"
proof -
  define doc_a where "doc_a = [(''_id'', JObjectId ''a1''), (''name'', JStr ''Ann'')]"
  have i: "field doc_a ''_id'' = JObjectId ''a1''" by (simp add: doc_a_def field_def)
  have look: "xcall (head_findOne memory_xronox ''people'' (field doc_a ''_id''))
                (XFindOne ''people'' (field doc_a ''_id'')) migrated_people
      = (Inr (Some (pointer ''a1'' ''people/a1.json'')),
         snd (xcall (head_findOne memory_xronox ''people'' (JObjectId ''a1''))
               (XFindOne ''people'' (JObjectId ''a1'')) migrated_people))"
    unfolding i by (simp add: xcall_eq memory_xronox_def migrated_people_def)
  have key: "truthy (storage_key (pointer ''a1'' ''people/a1.json''))"
    by (simp add: storage_key_def pointer_def field_def)
  note inst = resume_skips_migrated[OF look key, of "''bucket''"]
  from inst have doc: "migrateDocument memory_xronox ''bucket'' ''people'' doc_a True migrated_people
     = (Inr None,
        snd (xcall (head_findOne memory_xronox ''people'' (JObjectId ''a1''))
               (XFindOne ''people'' (JObjectId ''a1'')) migrated_people))"
    by (simp add: i)
  define X where "X = migrateCollection memory_xronox ''people'' people True False migrated_people"
  have run: "migrateCollection memory_xronox ''people'' people True False migrated_people
      = (fst X, snd X)"
    by (simp add: X_def)
  have tr: "xtrace (snd X) = xtrace migrated_people @ xtrace (snd X)"
    by (simp add: migrated_people_def)
  have found: "list_all lookup_found (xtrace (snd X))"
    unfolding X_def people_second_run(1)
    by (simp add: storage_key_def pointer_def field_def)
  from inst have "\<forall>records validate w0 r w' evs.
            migrateCollection memory_xronox ''people'' records True validate w0 = (r, w') \<and>
            xtrace w' = xtrace w0 @ evs \<and> list_all lookup_found evs \<longrightarrow>
            list_all (\<lambda>e. \<not> is_write e) evs \<and> list_all (\<lambda>e. \<not> counts_migrated e) evs"
    by blast
  with run tr found have "list_all (\<lambda>e. \<not> is_write e) (xtrace (snd X))"
    by blast
  with doc people_second_run(2) show ?thesis
    by (simp add: X_def doc_a_def)
qed

text \<open>
  C8, as stated, fails. Three head documents have a storage pointer and the object of the
  first is missing: the pass prints the warning for that key and then "Validation
  completed with 1 failures". No line reports a passed count of 2.
\<close>

theorem validation_one_missing_counterexample:
  "xlines (xtrace (snd (validateCollection memory_xronox ''bucket'' ''people'' migrated_people)))
     = [ValidationFailed ''people'' (JStr ''people/a1.json'') NO_SUCH_KEY, ValidationCompleted 1] \<and>
   length (heads (outside migrated_people)) = 3"
  by (simp add: people_validation) (simp add: migrated_people_def)

theorem validation_one_missing_witness:
  "validateCollection memory_xronox ''bucket'' ''people'' migrated_people
     = (Inr (), xemit (XConsole (ValidationCompleted 1))
          (snd (snd (validate_loop memory_xronox ''bucket'' ''people''
             (map snd (heads (outside migrated_people))) 0 []
             (snd (xcall (head_find memory_xronox ''people'') (XFindHeads ''people'')
                migrated_people)))))) \<and>
   fst (validate_loop memory_xronox ''bucket'' ''people''
          (map snd (heads (outside migrated_people))) 0 []
          (snd (xcall (head_find memory_xronox ''people'') (XFindHeads ''people'') migrated_people)))
     = 2 \<and>
   fst (snd (validate_loop memory_xronox ''bucket'' ''people''
          (map snd (heads (outside migrated_people))) 0 []
          (snd (xcall (head_find memory_xronox ''people'') (XFindHeads ''people'') migrated_people))))
     = [''a1'']"
proof -
  define docs where "docs = map snd (heads (outside migrated_people))"
  define w1 where "w1 = snd (xcall (head_find memory_xronox ''people'') (XFindHeads ''people'')
                migrated_people)"
  define V where "V = validate_loop memory_xronox ''bucket'' ''people'' docs 0 [] w1"
  define evs where "evs = [XGetJSON ''bucket'' (JStr ''people/a1.json'') (Inl NO_SUCH_KEY),
      XConsole (ValidationFailed ''people'' (JStr ''people/a1.json'') NO_SUCH_KEY),
      XGetJSON ''bucket'' (JStr ''people/b2.json'') (Inr ()),
      XGetJSON ''bucket'' (JStr ''people/c3.json'') (Inr ())]"
  have find: "xcall (head_find memory_xronox ''people'') (XFindHeads ''people'') migrated_people
      = (Inr docs, w1)"
    by (simp add: docs_def w1_def xcall_eq memory_xronox_def)
  have ev: "fst V = 2" "fst (snd V) = [''a1'']" "xtrace (snd (snd V)) = xtrace w1 @ evs"
    unfolding V_def docs_def w1_def evs_def
    by (simp_all add: xrun_simps id_text_def)
  then have run: "validate_loop memory_xronox ''bucket'' ''people'' docs 0 [] w1
      = (2, [''a1''], snd (snd V))"
    by (simp add: V_def prod_eq_iff)
  have one: "failed_reads evs = [(JStr ''people/a1.json'', NO_SUCH_KEY)]"
    by (simp add: evs_def)
  from validation_one_missing[OF find run ev(3) one]
  have "validateCollection memory_xronox ''bucket'' ''people'' migrated_people
     = (Inr (), xemit (XConsole (ValidationCompleted 1)) (snd (snd V)))"
    by simp
  with ev show ?thesis
    by (simp add: V_def docs_def w1_def)
qed

end
